theory Spec2Isabelle
  imports Main "HOL-Library.AList"
begin

section \<open>Go standard library functions used by the tool\<close>

text \<open>
  Go strings are byte sequences; they are modelled as \<open>string\<close> (a \<open>char list\<close>).
  The path functions are the Unix variants of \<open>path/filepath\<close>: the separator is
  \<open>/\<close> and there is no volume name, which is the platform the literals
  \<open>"/.git/"\<close> and \<open>"/testdata/"\<close> of the sources are written for.
\<close>

definition strings_HasPrefix :: "string \<Rightarrow> string \<Rightarrow> bool" where
  "strings_HasPrefix s pre = (take (length pre) s = pre)"

definition strings_HasSuffix :: "string \<Rightarrow> string \<Rightarrow> bool" where
  "strings_HasSuffix s suf =
     (length suf \<le> length s \<and> drop (length s - length suf) s = suf)"

definition strings_TrimSuffix :: "string \<Rightarrow> string \<Rightarrow> string" where
  "strings_TrimSuffix s suf =
     (if strings_HasSuffix s suf then take (length s - length suf) s else s)"

primrec strings_Contains :: "string \<Rightarrow> string \<Rightarrow> bool" where
  "strings_Contains [] sub = (sub = [])"
| "strings_Contains (x # xs) sub =
     (strings_HasPrefix (x # xs) sub \<or> strings_Contains xs sub)"

text \<open>\<open>strings.Split(s, sep)\<close> for a separator of one byte: the pieces between the
  separators, \<open>[""]\<close> for the empty string.\<close>

primrec strings_Split :: "string \<Rightarrow> char \<Rightarrow> string list" where
  "strings_Split [] sep = [[]]"
| "strings_Split (x # xs) sep =
     (if x = sep then [] # strings_Split xs sep
      else (case strings_Split xs sep of
              [] \<Rightarrow> [[x]]
            | w # ws \<Rightarrow> (x # w) # ws))"

text \<open>\<open>strings.Join(elems, sep)\<close>.\<close>

fun strings_Join :: "string list \<Rightarrow> string \<Rightarrow> string" where
  "strings_Join [] sep = []"
| "strings_Join [e] sep = e"
| "strings_Join (e # es) sep = e @ sep @ strings_Join es sep"

text \<open>\<open>filepath.ToSlash\<close> replaces the platform separator by \<open>/\<close>; with \<open>/\<close> as the
  separator it returns its argument.\<close>

definition filepath_ToSlash :: "string \<Rightarrow> string" where
  "filepath_ToSlash p = p"

text \<open>
  \<open>filepath.Clean\<close> works on the path elements between separators: empty elements and
  \<open>.\<close> are dropped, \<open>..\<close> removes the element before it when that is a real element, is
  dropped at the root of a rooted path and is kept otherwise. \<open>clean_step\<close> is one turn
  of its loop on the elements written so far.
\<close>

definition clean_step :: "bool \<Rightarrow> string list \<Rightarrow> string \<Rightarrow> string list" where
  "clean_step rooted out e =
     (if e = [] \<or> e = ''.'' then out
      else if e = ''..'' then
        (if out \<noteq> [] \<and> last out \<noteq> ''..'' then butlast out
         else if rooted then out
         else out @ [''..''])
      else out @ [e])"

definition clean_elems :: "string \<Rightarrow> string list" where
  "clean_elems p =
     foldl (clean_step (strings_HasPrefix p ''/'')) [] (strings_Split p CHR ''/'')"

definition filepath_Clean :: "string \<Rightarrow> string" where
  "filepath_Clean p =
     (if p = [] then ''.''
      else if strings_HasPrefix p ''/'' then ''/'' @ strings_Join (clean_elems p) ''/''
      else if clean_elems p = [] then ''.''
      else strings_Join (clean_elems p) ''/'')"

text \<open>\<open>filepath.Join\<close>: the elements from the first non-empty one on, joined by the
  separator and cleaned; the empty string when every element is empty.\<close>

definition filepath_Join :: "string list \<Rightarrow> string" where
  "filepath_Join elem =
     (case dropWhile (\<lambda>e. e = []) elem of
        [] \<Rightarrow> []
      | e # es \<Rightarrow> filepath_Clean (strings_Join (e # es) ''/''))"

text \<open>\<open>filepath.Base\<close>: the last element of the path, after trailing separators are
  stripped.\<close>

definition filepath_Base :: "string \<Rightarrow> string" where
  "filepath_Base p =
     (if p = [] then ''.''
      else (let q = rev (dropWhile (\<lambda>c. c = CHR ''/'') (rev p));
                b = rev (takeWhile (\<lambda>c. c \<noteq> CHR ''/'') (rev q))
            in if b = [] then ''/'' else b))"

definition filepath_IsAbs :: "string \<Rightarrow> bool" where
  "filepath_IsAbs p = strings_HasPrefix p ''/''"

section \<open>Package list: pkglist\<close>

text \<open>The \<open>Package\<close> struct of pkglist.\<close>

record Package =
  Dir :: string
  ImportPath :: string
  Deps :: "string list"
  EmbedFiles :: "string list"
  GoFiles :: "string list"
  TestGoFiles :: "string list"
  OtherFiles :: "string list"

text \<open>
  \<open>matchPackage\<close>: the three arguments are put in slash form, then the pattern is
  compared with the import path, treated as a wildcard when it ends in \<open>/...\<close>, and
  otherwise compared with the last element of the import path and with the ends of the
  import path and of the directory.
\<close>

definition matchPackage :: "string \<Rightarrow> string \<Rightarrow> string \<Rightarrow> bool" where
  "matchPackage pattern0 importPath0 dir0 =
     (let pattern = filepath_ToSlash pattern0;
          importPath = filepath_ToSlash importPath0;
          dir = filepath_ToSlash dir0
      in if pattern = importPath then True
         else if strings_HasSuffix pattern ''/...'' then
           (let prefix = strings_TrimSuffix pattern ''/...''
            in if prefix = ''.'' then True
               else if strings_HasSuffix importPath (''/'' @ prefix)
                       \<or> strings_HasPrefix importPath (prefix @ ''/'') then True
               else if strings_Contains dir (''/'' @ prefix @ ''/'') then True
               else False)
         else
           (let importParts = strings_Split importPath CHR ''/''
            in if length importParts > 0 \<and> last importParts = pattern then True
               else if strings_HasSuffix importPath (''/'' @ pattern) then True
               else if strings_HasSuffix dir (''/'' @ pattern) then True
               else False))"

text \<open>
  The \<open>Finder\<close>. Its \<open>packages\<close> map is an association list with one entry per key:
  lookup is \<open>map_of\<close>, assignment is \<open>AList.update\<close>, and the order of the list is the
  order in which a \<open>range\<close> over the map visits it, which Go leaves unspecified; what is
  proved below holds for every order.
\<close>

record Finder =
  sourceDir :: string
  packages :: "(string \<times> Package) list"

text \<open>
  One object of the stream that \<open>go list -json ./...\<close> prints, with the fields the tool
  is concerned with. \<open>XTestGoFiles\<close> are the test files of the external test package
  \<open>p_test\<close> that live in the package's directory.
\<close>

record GoListObject =
  json_Dir :: string
  json_ImportPath :: string
  json_Deps :: "string list"
  json_EmbedFiles :: "string list"
  json_GoFiles :: "string list"
  json_TestGoFiles :: "string list"
  json_XTestGoFiles :: "string list"
  json_OtherFiles :: "string list"

datatype json_value = Undecodable | Object GoListObject

datatype find_error = ListFailed | DecodeFailed

text \<open>\<open>decoder.Decode(&pkg)\<close> fills the fields that \<open>Package\<close> declares and ignores the
  others.\<close>

definition Decode :: "GoListObject \<Rightarrow> Package" where
  "Decode obj =
     \<lparr> Dir = json_Dir obj, ImportPath = json_ImportPath obj, Deps = json_Deps obj,
       EmbedFiles = json_EmbedFiles obj, GoFiles = json_GoFiles obj,
       TestGoFiles = json_TestGoFiles obj, OtherFiles = json_OtherFiles obj \<rparr>"

text \<open>\<open>FindAll\<close>, given what the \<open>go list\<close> command returned: an error, or the values
  of its output stream. A package decoded before a failure stays in the map.\<close>

fun FindAll_decode :: "Finder \<Rightarrow> json_value list \<Rightarrow> find_error option \<times> Finder" where
  "FindAll_decode f [] = (None, f)"
| "FindAll_decode f (Undecodable # vs) = (Some DecodeFailed, f)"
| "FindAll_decode f (Object obj # vs) =
     (let pkg = Decode obj
      in FindAll_decode (f\<lparr>packages := AList.update (ImportPath pkg) pkg (packages f)\<rparr>) vs)"

definition FindAll :: "Finder \<Rightarrow> json_value list option \<Rightarrow> find_error option \<times> Finder" where
  "FindAll f out =
     (case out of
        None \<Rightarrow> (Some ListFailed, f)
      | Some vs \<Rightarrow> FindAll_decode f vs)"

text \<open>\<open>FilterByPatterns\<close>: the import paths of the packages that some pattern matches.
  The keep set \<open>map[string]struct{}\<close> is a set of strings.\<close>

definition FilterByPatterns :: "Finder \<Rightarrow> string list \<Rightarrow> string set" where
  "FilterByPatterns f patterns =
     set (concat (map (\<lambda>pattern.
            map (\<lambda>e. ImportPath (snd e))
              (filter (\<lambda>e. matchPackage pattern (ImportPath (snd e)) (Dir (snd e)))
                 (packages f)))
          patterns))"

text \<open>
  \<open>AddDependencies\<close>. The inner loop over \<open>p.Deps\<close> adds each dependency that is not yet
  kept and is a key of the package map to the keep set and to the end of \<open>toProcess\<close>.
\<close>

fun AddDependencies_deps ::
  "(string \<times> Package) list \<Rightarrow> string list \<Rightarrow> string set \<times> string list
     \<Rightarrow> string set \<times> string list" where
  "AddDependencies_deps pkgs [] st = st"
| "AddDependencies_deps pkgs (dep # deps) (keepPackages, toProcess) =
     AddDependencies_deps pkgs deps
       (if dep \<notin> keepPackages then
          (if map_of pkgs dep \<noteq> None
           then (insert dep keepPackages, toProcess @ [dep])
           else (keepPackages, toProcess))
        else (keepPackages, toProcess))"

lemma AddDependencies_deps_measure:
  "AddDependencies_deps pkgs deps (keep, q) = (keep', q') \<Longrightarrow>
   card (fst ` set pkgs - keep') + length q' = card (fst ` set pkgs - keep) + length q"
proof (induction deps arbitrary: keep q)
  case Nil
  then show ?case by simp
next
  case (Cons dep deps)
  show ?case
  proof (cases "dep \<notin> keep \<and> map_of pkgs dep \<noteq> None")
    case True
    then have mem: "dep \<in> fst ` set pkgs - keep"
      by (auto simp: map_of_eq_None_iff)
    have "card (fst ` set pkgs - insert dep keep) = card ((fst ` set pkgs - keep) - {dep})"
      by (rule arg_cong [where f = card]) auto
    also have "\<dots> = card (fst ` set pkgs - keep) - 1"
      using mem by simp
    finally have c: "card (fst ` set pkgs - insert dep keep) + 1 = card (fst ` set pkgs - keep)"
      using mem card_gt_0_iff [of "fst ` set pkgs - keep"] by fastforce
    from Cons.prems True
    have "AddDependencies_deps pkgs deps (insert dep keep, q @ [dep]) = (keep', q')"
      by simp
    from Cons.IH [OF this] c show ?thesis by simp
  next
    case False
    with Cons.prems have "AddDependencies_deps pkgs deps (keep, q) = (keep', q')"
      by (cases "dep \<in> keep") auto
    from Cons.IH [OF this] show ?thesis .
  qed
qed

lemma AddDependencies_deps_queue:
  "AddDependencies_deps pkgs deps (keep, q) = (keep', q') \<Longrightarrow> \<exists>new. q' = q @ new"
proof (induction deps arbitrary: keep q)
  case Nil
  then show ?case by simp
next
  case (Cons dep deps)
  show ?case
  proof (cases "dep \<notin> keep \<and> map_of pkgs dep \<noteq> None")
    case True
    with Cons.prems
    have "AddDependencies_deps pkgs deps (insert dep keep, q @ [dep]) = (keep', q')"
      by simp
    from Cons.IH [OF this] show ?thesis by auto
  next
    case False
    with Cons.prems have "AddDependencies_deps pkgs deps (keep, q) = (keep', q')"
      by (cases "dep \<in> keep") auto
    from Cons.IH [OF this] show ?thesis .
  qed
qed

text \<open>The outer loop \<open>for i := 0; i < len(toProcess); i++\<close>, which reads
  \<open>toProcess[i]\<close> while the inner loop appends to \<open>toProcess\<close>.\<close>

function AddDependencies_loop ::
  "(string \<times> Package) list \<Rightarrow> nat \<Rightarrow> string set \<times> string list \<Rightarrow> string set" where
  "AddDependencies_loop pkgs i (keepPackages, toProcess) =
     (if i < length toProcess then
        AddDependencies_loop pkgs (Suc i)
          (case map_of pkgs (toProcess ! i) of
             Some p \<Rightarrow> AddDependencies_deps pkgs (Deps p) (keepPackages, toProcess)
           | None \<Rightarrow> (keepPackages, toProcess))
      else keepPackages)"
  by pat_completeness auto
termination
proof (relation "measure (\<lambda>(pkgs, i, keep, q). card (fst ` set pkgs - keep) + (length q - i))")
  show "wf (measure (\<lambda>(pkgs, i, keep, q). card (fst ` set pkgs - keep) + (length q - i)))"
    by simp
next
  fix pkgs :: "(string \<times> Package) list" and i :: nat and keep :: "string set" and q :: "string list"
  assume lt: "i < length q"
  define st where "st = (case map_of pkgs (q ! i) of
                     None \<Rightarrow> (keep, q)
                   | Some p \<Rightarrow> AddDependencies_deps pkgs (Deps p) (keep, q))"
  obtain keep' q' where st': "st = (keep', q')" by (cases st)
  have "card (fst ` set pkgs - keep') + length q' = card (fst ` set pkgs - keep) + length q
        \<and> length q \<le> length q'"
  proof (cases "map_of pkgs (q ! i)")
    case None
    with st_def st' show ?thesis by simp
  next
    case (Some p)
    with st_def st' have "AddDependencies_deps pkgs (Deps p) (keep, q) = (keep', q')" by simp
    then show ?thesis
      using AddDependencies_deps_measure AddDependencies_deps_queue by fastforce
  qed
  then have "((pkgs, Suc i, st), (pkgs, i, keep, q))
       \<in> measure (\<lambda>(pkgs, i, keep, q). card (fst ` set pkgs - keep) + (length q - i))"
    using lt st' by simp
  then show "((pkgs, Suc i,
         case map_of pkgs (q ! i) of
           None \<Rightarrow> (keep, q)
         | Some p \<Rightarrow> AddDependencies_deps pkgs (Deps p) (keep, q)),
        pkgs, i, keep, q)
       \<in> measure (\<lambda>(pkgs, i, keep, q). card (fst ` set pkgs - keep) + (length q - i))"
    unfolding st_def .
qed

text \<open>\<open>AddDependencies\<close> itself: \<open>toProcess\<close> starts as the keys of the keep set in the
  order \<open>keys\<close> in which \<open>range keepPackages\<close> yields them.\<close>

definition AddDependencies :: "Finder \<Rightarrow> string list \<Rightarrow> string set \<Rightarrow> string set" where
  "AddDependencies f keys keepPackages =
     AddDependencies_loop (packages f) 0 (keepPackages, keys)"

text \<open>A package \<open>p\<close> has its dependencies in a keep set when every dependency it declares
  that is a key of the package map is in the keep set.\<close>

definition closed_under_deps :: "(string \<times> Package) list \<Rightarrow> string set \<Rightarrow> string \<Rightarrow> bool" where
  "closed_under_deps pkgs keep p =
     (case map_of pkgs p of
        None \<Rightarrow> True
      | Some rec \<Rightarrow> (\<forall>d \<in> set (Deps rec). map_of pkgs d \<noteq> None \<longrightarrow> d \<in> keep))"

text \<open>\<open>GetFileList\<close>: the body of its loop for one kept package, and the loop over the
  package map.\<close>

definition GetFileList_package :: "Package \<Rightarrow> bool \<Rightarrow> string list" where
  "GetFileList_package pkg withTests =
     map (\<lambda>file. filepath_Join [Dir pkg, file]) (GoFiles pkg)
     @ (if withTests then
          map (\<lambda>file. filepath_Join [Dir pkg, file]) (TestGoFiles pkg)
          @ map (\<lambda>file. filepath_Join [Dir pkg, file]) (OtherFiles pkg)
        else
          filter (\<lambda>absPath. \<not> strings_Contains absPath ''/testdata/'')
            (map (\<lambda>file. filepath_Join [Dir pkg, file]) (OtherFiles pkg)))
     @ map (\<lambda>file. filepath_Join [Dir pkg, file]) (EmbedFiles pkg)"

primrec GetFileList_range ::
  "(string \<times> Package) list \<Rightarrow> string set \<Rightarrow> bool \<Rightarrow> string list \<Rightarrow> string list" where
  "GetFileList_range [] keepPackages withTests allFiles = allFiles"
| "GetFileList_range (e # es) keepPackages withTests allFiles =
     GetFileList_range es keepPackages withTests
       (if fst e \<notin> keepPackages then allFiles
        else allFiles @ GetFileList_package (snd e) withTests)"

definition GetFileList :: "Finder \<Rightarrow> string set \<Rightarrow> bool \<Rightarrow> string list" where
  "GetFileList f keepPackages withTests =
     GetFileList_range (packages f) keepPackages withTests []"

section \<open>Deletion engine: cleaner\<close>

text \<open>
  The file system behind \<open>afero.Fs\<close> is a tree of regular files and directories below
  the root \<open>/\<close>. The entries of a directory are listed in the order in which
  \<open>ReadDir\<close> returns them. Every operation of the interface can fail; which calls fail
  is given by predicates on the path passed to the call. \<open>wd\<close> is the working
  directory against which a relative path is resolved, and \<open>exec_go_mod_tidy\<close> is the
  effect of the external command \<open>go mod tidy\<close> run in a directory: whether it
  succeeded, and the tree it leaves.
\<close>

datatype node = RegularFile | Directory "(string \<times> node) list"

datatype fs_error =
    LstatFailed string
  | ReadDirFailed string
  | RemoveFailed string
  | GetwdFailed

record Fs =
  tree :: node
  wd :: string
  getwd_fails :: bool
  lstat_fails :: "string \<Rightarrow> bool"
  readdir_fails :: "string \<Rightarrow> bool"
  remove_fails :: "string \<Rightarrow> bool"
  exec_go_mod_tidy :: "string \<Rightarrow> node \<Rightarrow> bool \<times> node"

fun IsDir :: "node \<Rightarrow> bool" where
  "IsDir RegularFile = False"
| "IsDir (Directory entries) = True"

text \<open>\<open>filepath.Abs\<close>: an absolute path is cleaned, a relative one is joined to the
  working directory, which fails when \<open>os.Getwd\<close> does.\<close>

definition filepath_Abs :: "Fs \<Rightarrow> string \<Rightarrow> fs_error + string" where
  "filepath_Abs fs path =
     (if filepath_IsAbs path then Inr (filepath_Clean path)
      else if getwd_fails fs then Inl GetwdFailed
      else Inr (filepath_Join [wd fs, path]))"

text \<open>The elements that lead from the root of the tree to the file a path names.\<close>

definition path_elems :: "Fs \<Rightarrow> string \<Rightarrow> string list" where
  "path_elems fs path =
     clean_elems (if filepath_IsAbs path then path else filepath_Join [wd fs, path])"

fun lookup :: "node \<Rightarrow> string list \<Rightarrow> node option" where
  "lookup n [] = Some n"
| "lookup RegularFile (e # es) = None"
| "lookup (Directory entries) (e # es) =
     (case map_of entries e of
        None \<Rightarrow> None
      | Some m \<Rightarrow> lookup m es)"

text \<open>\<open>put es v n\<close> replaces what the elements \<open>es\<close> lead to in \<open>n\<close> by \<open>v\<close>, and
  unlinks it when \<open>v\<close> is \<open>None\<close>; the root itself cannot be unlinked.\<close>

fun put :: "string list \<Rightarrow> node option \<Rightarrow> node \<Rightarrow> node"
  and put_entry :: "string \<Rightarrow> string list \<Rightarrow> node option \<Rightarrow> (string \<times> node) list
                      \<Rightarrow> (string \<times> node) list" where
  "put [] v n = (case v of None \<Rightarrow> n | Some m \<Rightarrow> m)"
| "put (e # es) v RegularFile = RegularFile"
| "put (e # es) v (Directory entries) = Directory (put_entry e es v entries)"
| "put_entry e es v [] = []"
| "put_entry e es v ((name, m) # entries) =
     (if name = e then
        (if es = [] then
           (case v of None \<Rightarrow> entries | Some m' \<Rightarrow> (name, m') # entries)
         else (name, put es v m) # entries)
      else (name, m) # put_entry e es v entries)"

text \<open>\<open>fs.Remove\<close>: unlinks a file or an empty directory.\<close>

definition fs_Remove :: "Fs \<Rightarrow> string \<Rightarrow> fs_error + Fs" where
  "fs_Remove fs path =
     (if remove_fails fs path then Inl (RemoveFailed path)
      else (case lookup (tree fs) (path_elems fs path) of
              None \<Rightarrow> Inl (RemoveFailed path)
            | Some RegularFile \<Rightarrow>
                Inr (fs\<lparr>tree := put (path_elems fs path) None (tree fs)\<rparr>)
            | Some (Directory entries) \<Rightarrow>
                (if entries = [] \<and> path_elems fs path \<noteq> []
                 then Inr (fs\<lparr>tree := put (path_elems fs path) None (tree fs)\<rparr>)
                 else Inl (RemoveFailed path))))"

text \<open>The \<open>Cleaner\<close> struct; its \<open>fs\<close> field is the file system state that the
  operations take and return.\<close>

record Cleaner =
  sourceDir :: string
  filesToKeep :: "string set"
  protectGit :: bool
  protectGoMod :: bool
  keepTests :: bool
  dryRun :: bool
  runGoModTidy :: bool

definition WithGitProtection :: "bool \<Rightarrow> Cleaner \<Rightarrow> Cleaner" where
  "WithGitProtection protect c = c\<lparr>protectGit := protect\<rparr>"

definition WithGoModProtection :: "bool \<Rightarrow> Cleaner \<Rightarrow> Cleaner" where
  "WithGoModProtection protect c = c\<lparr>protectGoMod := protect\<rparr>"

definition WithDryRun :: "bool \<Rightarrow> Cleaner \<Rightarrow> Cleaner" where
  "WithDryRun d c = c\<lparr>dryRun := d\<rparr>"

definition WithTestKeeping :: "bool \<Rightarrow> Cleaner \<Rightarrow> Cleaner" where
  "WithTestKeeping keep c = c\<lparr>keepTests := keep\<rparr>"

definition WithGoModTidy :: "bool \<Rightarrow> Cleaner \<Rightarrow> Cleaner" where
  "WithGoModTidy enabled c = c\<lparr>runGoModTidy := enabled\<rparr>"

definition New :: "string \<Rightarrow> string list \<Rightarrow> (Cleaner \<Rightarrow> Cleaner) list \<Rightarrow> Cleaner" where
  "New dir files opts =
     foldl (\<lambda>c opt. opt c)
       \<lparr> sourceDir = dir, filesToKeep = set files, protectGit = True,
         protectGoMod = True, keepTests = False, dryRun = False, runGoModTidy = False \<rparr>
       opts"

text \<open>
  The decision that the callback of the first pass takes for a regular file with
  absolute path \<open>absPath\<close>: \<open>KEEP\<close> where the callback returns without recording the
  path, \<open>REMOVE\<close> where it appends the path to \<open>toRemove\<close>.
\<close>

datatype classification = KEEP | REMOVE

definition classify :: "Cleaner \<Rightarrow> string \<Rightarrow> classification" where
  "classify c absPath =
     (if absPath \<in> filesToKeep c then KEEP
      else if protectGit c \<and> strings_Contains absPath ''/.git/'' then KEEP
      else (let inTestdata = strings_Contains absPath ''/testdata/''
            in if protectGoMod c \<and> \<not> inTestdata
                  \<and> (filepath_Base absPath = ''go.mod'' \<or> filepath_Base absPath = ''go.sum'')
               then KEEP
               else REMOVE))"

text \<open>The callback, called without an error for \<open>path\<close> and its file info; called with
  an error it returns that error, which the walk below writes as \<open>Inl\<close>.\<close>

definition walkFn :: "Cleaner \<Rightarrow> Fs \<Rightarrow> string \<Rightarrow> node \<Rightarrow> string list \<Rightarrow> fs_error + string list" where
  "walkFn c fs path info toRemove =
     (if IsDir info then Inr toRemove
      else (case filepath_Abs fs path of
              Inl e \<Rightarrow> Inl e
            | Inr absPath \<Rightarrow>
                (case classify c absPath of
                   KEEP \<Rightarrow> Inr toRemove
                 | REMOVE \<Rightarrow> Inr (toRemove @ [absPath]))))"

text \<open>\<open>afero.Walk\<close> with that callback: \<open>walk\<close> visits a file or directory and then the
  entries of a directory in turn, stopping at the first error.\<close>

fun walk :: "Cleaner \<Rightarrow> Fs \<Rightarrow> string \<Rightarrow> node \<Rightarrow> string list \<Rightarrow> fs_error + string list"
  and walk_names :: "Cleaner \<Rightarrow> Fs \<Rightarrow> string \<Rightarrow> (string \<times> node) list \<Rightarrow> string list
                       \<Rightarrow> fs_error + string list" where
  "walk c fs path RegularFile toRemove = walkFn c fs path RegularFile toRemove"
| "walk c fs path (Directory entries) toRemove =
     (case walkFn c fs path (Directory entries) toRemove of
        Inl e \<Rightarrow> Inl e
      | Inr toRemove' \<Rightarrow>
          (if readdir_fails fs path then Inl (ReadDirFailed path)
           else walk_names c fs path entries toRemove'))"
| "walk_names c fs path [] toRemove = Inr toRemove"
| "walk_names c fs path ((name, info) # entries) toRemove =
     (if lstat_fails fs (filepath_Join [path, name])
      then Inl (LstatFailed (filepath_Join [path, name]))
      else (case walk c fs (filepath_Join [path, name]) info toRemove of
              Inl e \<Rightarrow> Inl e
            | Inr toRemove' \<Rightarrow> walk_names c fs path entries toRemove'))"

definition Walk :: "Cleaner \<Rightarrow> Fs \<Rightarrow> fs_error + string list" where
  "Walk c fs =
     (if lstat_fails fs (sourceDir c) then Inl (LstatFailed (sourceDir c))
      else (case lookup (tree fs) (path_elems fs (sourceDir c)) of
              None \<Rightarrow> Inl (LstatFailed (sourceDir c))
            | Some info \<Rightarrow> walk c fs (sourceDir c) info []))"

text \<open>The second pass: \<open>fs.Remove\<close> on each recorded path, stopping at the first
  failure with what was removed so far gone.\<close>

datatype clean_error =
    WalkError fs_error
  | RemovalError string fs_error
  | EmptyDirsError fs_error
  | TidyError

fun removeFiles :: "Fs \<Rightarrow> string list \<Rightarrow> clean_error option \<times> Fs" where
  "removeFiles fs [] = (None, fs)"
| "removeFiles fs (path # toRemove) =
     (case fs_Remove fs path of
        Inl e \<Rightarrow> (Some (RemovalError path e), fs)
      | Inr fs' \<Rightarrow> removeFiles fs' toRemove)"

text \<open>
  \<open>removeEmptyDirs\<close> on the directory that \<open>path\<close> names: the result is the error, if
  any, and what is left of the directory (\<open>None\<close> when it was removed).
  \<open>removeEmptyDirs_entries\<close> is its loop over the entries read at the start, which
  passes over an entry that is not a directory or is the protected \<open>.git\<close> and
  calls \<open>removeEmptyDirs\<close> on \<open>filepath.Join(path, entry.Name())\<close> otherwise.
\<close>

fun removeEmptyDirs :: "Cleaner \<Rightarrow> Fs \<Rightarrow> string \<Rightarrow> node \<Rightarrow> fs_error option \<times> node option"
  and removeEmptyDirs_entries :: "Cleaner \<Rightarrow> Fs \<Rightarrow> string \<Rightarrow> (string \<times> node) list
                       \<Rightarrow> fs_error option \<times> (string \<times> node) list" where
  "removeEmptyDirs c fs path RegularFile = (Some (ReadDirFailed path), Some RegularFile)"
| "removeEmptyDirs c fs path (Directory entries) =
     (if readdir_fails fs path then (Some (ReadDirFailed path), Some (Directory entries))
      else (case removeEmptyDirs_entries c fs path entries of
              (Some e, entries') \<Rightarrow> (Some e, Some (Directory entries'))
            | (None, entries') \<Rightarrow>
                (if entries' = [] \<and> path \<noteq> sourceDir c then
                   (if dryRun c then (None, Some (Directory entries'))
                    else if remove_fails fs path
                      then (Some (RemoveFailed path), Some (Directory entries'))
                      else (None, None))
                 else (None, Some (Directory entries')))))"
| "removeEmptyDirs_entries c fs path [] = (None, [])"
| "removeEmptyDirs_entries c fs path ((name, entry) # entries) =
     (if IsDir entry \<and> \<not> (protectGit c \<and> name = ''.git'') then
        (case removeEmptyDirs c fs (filepath_Join [path, name]) entry of
           (Some e, left) \<Rightarrow>
             (Some e, (case left of None \<Rightarrow> [] | Some d \<Rightarrow> [(name, d)]) @ entries)
         | (None, left) \<Rightarrow>
             (case removeEmptyDirs_entries c fs path entries of
                (err, entries') \<Rightarrow>
                  (err, (case left of None \<Rightarrow> [] | Some d \<Rightarrow> [(name, d)]) @ entries')))
      else
        (case removeEmptyDirs_entries c fs path entries of
           (err, entries') \<Rightarrow> (err, (name, entry) # entries')))"

text \<open>The third pass, \<open>c.removeEmptyDirs(c.sourceDir)\<close>, on the file system.\<close>

definition removeEmptyDirs_sourceDir :: "Cleaner \<Rightarrow> Fs \<Rightarrow> fs_error option \<times> Fs" where
  "removeEmptyDirs_sourceDir c fs =
     (case lookup (tree fs) (path_elems fs (sourceDir c)) of
        None \<Rightarrow> (Some (ReadDirFailed (sourceDir c)), fs)
      | Some d \<Rightarrow>
          (case removeEmptyDirs c fs (sourceDir c) d of
             (err, left) \<Rightarrow>
               (err, fs\<lparr>tree := put (path_elems fs (sourceDir c)) left (tree fs)\<rparr>)))"

text \<open>\<open>Clean\<close>: the error it returns, if any, and the file system it leaves.\<close>

definition Clean :: "Cleaner \<Rightarrow> Fs \<Rightarrow> clean_error option \<times> Fs" where
  "Clean c fs =
     (case Walk c fs of
        Inl e \<Rightarrow> (Some (WalkError e), fs)
      | Inr toRemove \<Rightarrow>
          (case (if \<not> dryRun c then removeFiles fs toRemove else (None, fs)) of
             (Some e, fs1) \<Rightarrow> (Some e, fs1)
           | (None, fs1) \<Rightarrow>
               (case removeEmptyDirs_sourceDir c fs1 of
                  (Some e, fs2) \<Rightarrow> (Some (EmptyDirsError e), fs2)
                | (None, fs2) \<Rightarrow>
                    (if \<not> dryRun c \<and> runGoModTidy c then
                       (case exec_go_mod_tidy fs2 (sourceDir c) (tree fs2) of
                          (ok, t) \<Rightarrow>
                            (if ok then None else Some TidyError, fs2\<lparr>tree := t\<rparr>))
                     else (None, fs2)))))"

text \<open>
  What the collapse of empty directories is to achieve. The name of a directory entry is
  a file name: not empty, not \<open>.\<close> or \<open>..\<close>, and without a separator; a tree is valid
  when all its entries have such names. \<open>no_empty_dirs_entries protect entries\<close>
  holds when no directory among the entries, or anywhere below them, is empty, the
  entries named \<open>.git\<close> and all below them left aside when \<open>protect\<close> is set.
\<close>

definition valid_name :: "string \<Rightarrow> bool" where
  "valid_name n = (n \<noteq> [] \<and> n \<noteq> ''.'' \<and> n \<noteq> ''..'' \<and> CHR ''/'' \<notin> set n)"

fun valid_tree :: "node \<Rightarrow> bool"
  and valid_entries :: "(string \<times> node) list \<Rightarrow> bool" where
  "valid_tree RegularFile = True"
| "valid_tree (Directory entries) = valid_entries entries"
| "valid_entries [] = True"
| "valid_entries ((name, entry) # entries) =
     (valid_name name \<and> valid_tree entry \<and> valid_entries entries)"

fun no_empty_dirs :: "bool \<Rightarrow> node \<Rightarrow> bool"
  and no_empty_dirs_entries :: "bool \<Rightarrow> (string \<times> node) list \<Rightarrow> bool" where
  "no_empty_dirs protect RegularFile = True"
| "no_empty_dirs protect (Directory entries) =
     (entries \<noteq> [] \<and> no_empty_dirs_entries protect entries)"
| "no_empty_dirs_entries protect [] = True"
| "no_empty_dirs_entries protect ((name, entry) # entries) =
     (((protect \<and> name = ''.git'') \<or> no_empty_dirs protect entry)
      \<and> no_empty_dirs_entries protect entries)"

text \<open>What \<open>removeEmptyDirs\<close> leaves of a directory below the source root: nothing, or
  a directory that is not empty and has no empty directory below it.\<close>

definition settled :: "bool \<Rightarrow> node option \<Rightarrow> bool" where
  "settled protect left = (case left of None \<Rightarrow> True | Some d \<Rightarrow> no_empty_dirs protect d)"

text \<open>
  The element lists that \<open>filepath.Clean\<close> builds: every element is a name other than
  \<open>.\<close>, and \<open>..\<close> occurs only at the start of a path that is not rooted.
\<close>

definition elem_ok :: "string \<Rightarrow> bool" where
  "elem_ok e = (e \<noteq> [] \<and> e \<noteq> ''.'' \<and> CHR ''/'' \<notin> set e)"

definition normal :: "bool \<Rightarrow> string list \<Rightarrow> bool" where
  "normal rooted X =
     ((\<forall>e \<in> set X. elem_ok e)
      \<and> (if rooted then ''..'' \<notin> set X
         else ''..'' \<notin> set (dropWhile (\<lambda>e. e = ''..'') X)))"

section \<open>Example data\<close>

text \<open>The two packages of the end-to-end scenario, \<open>repo/pkg2\<close> depending on
  \<open>repo/pkg1\<close> and on a package outside the tree.\<close>

definition scenario_finder :: Finder where
  "scenario_finder =
     \<lparr> Finder.sourceDir = ''/repo'',
       packages =
         [(''repo/pkg1'',
           \<lparr> Dir = ''/repo/pkg1'', ImportPath = ''repo/pkg1'', Deps = [''fmt''],
             EmbedFiles = [], GoFiles = [''main.go'', ''util.go''], TestGoFiles = [],
             OtherFiles = [] \<rparr>),
          (''repo/pkg2'',
           \<lparr> Dir = ''/repo/pkg2'', ImportPath = ''repo/pkg2'', Deps = [''fmt'', ''repo/pkg1''],
             EmbedFiles = [], GoFiles = [''main.go'', ''util.go''], TestGoFiles = [],
             OtherFiles = [] \<rparr>)] \<rparr>"

text \<open>The output of \<open>go list\<close> for the package of the test case "with XTestGoFiles" of
  \<open>TestFinder_GetFileList\<close>.\<close>

definition xtest_output :: "json_value list" where
  "xtest_output =
     [Object \<lparr> json_Dir = ''/test/pkg1'', json_ImportPath = ''pkg1'', json_Deps = [],
        json_EmbedFiles = [], json_GoFiles = [''main.go''],
        json_TestGoFiles = [''main_test.go''], json_XTestGoFiles = [''export_test.go''],
        json_OtherFiles = [] \<rparr>]"

text \<open>A source tree \<open>/src\<close> with a \<open>.git\<close> directory, a manifest, three packages, a
  manifest among the fixtures of the second and an empty directory in the third; a
  file system on which no call fails; and the cleaner that \<open>New\<close> makes for it with
  one file to keep.\<close>

definition example_tree :: node where
  "example_tree =
     Directory [(''src'', Directory
       [(''.git'', Directory [(''config'', RegularFile), (''objects'', Directory [])]),
        (''go.mod'', RegularFile),
        (''pkg1'', Directory [(''file1.go'', RegularFile), (''file2.go'', RegularFile)]),
        (''pkg2'', Directory [(''file3.go'', RegularFile),
            (''testdata'', Directory [(''go.mod'', RegularFile)])]),
        (''pkg3'', Directory [(''sub'', Directory [(''x.txt'', RegularFile)]),
            (''e'', Directory [])])])]"

definition example_fs :: Fs where
  "example_fs =
     \<lparr> tree = example_tree, wd = ''/'', getwd_fails = False, lstat_fails = (\<lambda>p. False),
       readdir_fails = (\<lambda>p. False), remove_fails = (\<lambda>p. False),
       exec_go_mod_tidy = (\<lambda>dir t. (True, t)) \<rparr>"

definition example_cleaner :: Cleaner where
  "example_cleaner = New ''/src'' [''/src/pkg1/file1.go''] []"

text \<open>A source tree with a chain of directories that hold no file, an empty directory
  beside a file, and an empty directory inside \<open>.git\<close>.\<close>

definition collapse_tree :: node where
  "collapse_tree =
     Directory [(''src'', Directory
       [(''.git'', Directory [(''objects'', Directory [])]),
        (''deep'', Directory [(''a'', Directory [(''b'', Directory [])])]),
        (''pkg1'', Directory [(''file1.go'', RegularFile), (''old'', Directory [])])])]"

text \<open>The file system of \<open>TestCleaner\<close> and the packages of the wildcard case of
  \<open>TestFinder_FilterByPatterns\<close>.\<close>

definition test_cleaner_fs :: Fs where
  "test_cleaner_fs =
     example_fs\<lparr>tree := Directory [(''src'', Directory
       [(''pkg1'', Directory [(''file1.go'', RegularFile), (''file2.go'', RegularFile)]),
        (''pkg2'', Directory [(''file3.go'', RegularFile),
            (''file4_test.go'', RegularFile)])])]\<rparr>"

definition test_packages :: "(string \<times> Package) list" where
  "test_packages =
     map (\<lambda>p. (''github.com/test/repo/'' @ p,
          \<lparr> Dir = ''/go/src/github.com/test/repo/'' @ p,
            ImportPath = ''github.com/test/repo/'' @ p, Deps = [], EmbedFiles = [],
            GoFiles = [], TestGoFiles = [], OtherFiles = [] \<rparr>))
       [''pkg/a'', ''pkg/b'', ''other'']"

section \<open>The tests of the repository on the model\<close>

text \<open>\<open>TestCleaner\<close>: of four files the two to keep are left, and \<open>Clean\<close> returns no
  error.\<close>

lemma TestCleaner:
  "fst (Clean (New ''/src'' [''/src/pkg1/file1.go'', ''/src/pkg2/file4_test.go''] [])
          test_cleaner_fs) = None
   \<and> tree (snd (Clean (New ''/src'' [''/src/pkg1/file1.go'', ''/src/pkg2/file4_test.go''] [])
                 test_cleaner_fs))
     = Directory [(''src'', Directory
         [(''pkg1'', Directory [(''file1.go'', RegularFile)]),
          (''pkg2'', Directory [(''file4_test.go'', RegularFile)])])]"
  by code_simp

text \<open>\<open>TestFinder_FilterByPatterns\<close>, the wildcard case, and
  \<open>TestFinder_GetFileList\<close>, the case with tests.\<close>

lemma TestFinder_FilterByPatterns:
  "FilterByPatterns \<lparr> Finder.sourceDir = [], packages = test_packages \<rparr>
     [''github.com/test/repo/pkg/...'']
   = {''github.com/test/repo/pkg/a'', ''github.com/test/repo/pkg/b''}"
  by code_simp

lemma TestFinder_GetFileList:
  "GetFileList \<lparr> Finder.sourceDir = [], packages =
       [(''pkg1'', \<lparr> Dir = ''/test/pkg1'', ImportPath = [], Deps = [], EmbedFiles = [],
           GoFiles = [''main.go''], TestGoFiles = [''main_test.go''],
           OtherFiles = [''testdata/fixture.json''] \<rparr>)] \<rparr> {''pkg1''} True
   = [''/test/pkg1/main.go'', ''/test/pkg1/main_test.go'', ''/test/pkg1/testdata/fixture.json'']"
  by code_simp

section \<open>Facts about the string functions\<close>

lemma HasSuffix_append: "strings_HasSuffix (a @ b) b"
  by (simp add: strings_HasSuffix_def)

lemma HasSuffix_iff: "strings_HasSuffix s suf \<longleftrightarrow> (\<exists>pre. s = pre @ suf)"
  unfolding strings_HasSuffix_def
  by (metis append_eq_conv_conj append_take_drop_id diff_add_inverse2 le_add2 length_append length_drop)

lemma HasPrefix_iff: "strings_HasPrefix s pre \<longleftrightarrow> (\<exists>suf. s = pre @ suf)"
  unfolding strings_HasPrefix_def
  by (metis append_eq_conv_conj append_take_drop_id)

lemma TrimSuffix_append: "strings_TrimSuffix (a @ b) b = a"
  by (simp add: strings_TrimSuffix_def HasSuffix_append)

lemma length_Split: "length (strings_Split s c) = Suc (length (filter (\<lambda>x. x = c) s))"
  by (induction s) (auto split: list.splits)

lemma Split_no_sep: "c \<notin> set s \<Longrightarrow> strings_Split s c = [s]"
  by (induction s) auto

lemma Split_last: "c \<in> set s \<Longrightarrow> \<exists>pre. s = pre @ [c] @ last (strings_Split s c)"
proof (induction s)
  case Nil
  then show ?case by simp
next
  case (Cons x xs)
  show ?case
  proof (cases "x = c")
    case True
    show ?thesis
    proof (cases "c \<in> set xs")
      case True
      with Cons.IH obtain pre where "xs = pre @ [c] @ last (strings_Split xs c)" by blast
      moreover have "strings_Split xs c \<noteq> []" using length_Split [of xs c] by auto
      ultimately show ?thesis using \<open>x = c\<close>
        by (metis append_Cons last_ConsR strings_Split.simps(2))
    next
      case False
      then show ?thesis using \<open>x = c\<close> by (simp add: Split_no_sep)
    qed
  next
    case False
    with Cons.prems have in_xs: "c \<in> set xs" by simp
    with Cons.IH obtain pre where xs: "xs = pre @ [c] @ last (strings_Split xs c)" by blast
    have "filter (\<lambda>x. x = c) xs \<noteq> []" using in_xs
      by (simp add: filter_empty_conv)
    then have "length (filter (\<lambda>x. x = c) xs) \<noteq> 0" by simp
    then have "length (strings_Split xs c) \<ge> 2" unfolding length_Split by linarith
    then obtain w v ws where sp: "strings_Split xs c = w # v # ws"
      by (cases "strings_Split xs c"; cases "tl (strings_Split xs c)") auto
    have "last (strings_Split (x # xs) c) = last (strings_Split xs c)"
      using False sp by simp
    then show ?thesis using xs by (metis append_Cons)
  qed
qed


lemma abs_last:
  "filepath_IsAbs dir \<Longrightarrow>
   strings_HasSuffix dir (''/'' @ last (strings_Split dir CHR ''/''))"
proof -
  assume "filepath_IsAbs dir"
  then have "CHR ''/'' \<in> set dir"
    by (auto simp: filepath_IsAbs_def HasPrefix_iff)
  from Split_last [OF this] show ?thesis by (auto simp: HasSuffix_iff)
qed

section \<open>Pattern matching\<close>

text \<open>
  C4, as the code has it. The pattern \<open>a/...\<close> matches the package with identity
  \<open>a/b\<close>, whatever its directory, and does not match a package with identity \<open>ab\<close>
  whose directory does not contain \<open>/a/\<close>. A pattern without the wildcard suffix
  matches every identity that ends in \<open>/\<close> followed by the pattern, in particular
  \<open>pkg1\<close> matches every identity ending in \<open>/pkg1\<close>. A pattern without the wildcard
  suffix that is the last element of a package's absolute directory matches the
  package, whatever its identity.
\<close>

theorem matchPackage_precedence:
  "matchPackage ''a/...'' ''a/b'' dir
   \<and> (\<not> strings_Contains dir ''/a/'' \<longrightarrow> \<not> matchPackage ''a/...'' ''ab'' dir)
   \<and> (\<not> strings_HasSuffix pattern ''/...'' \<and> strings_HasSuffix identity (''/'' @ pattern)
        \<longrightarrow> matchPackage pattern identity dir)
   \<and> (strings_HasSuffix identity ''/pkg1'' \<longrightarrow> matchPackage ''pkg1'' identity dir)
   \<and> (\<not> strings_HasSuffix pattern ''/...'' \<and> filepath_IsAbs dir'
        \<and> pattern = last (strings_Split dir' CHR ''/'')
        \<longrightarrow> matchPackage pattern identity' dir')"
proof (intro conjI impI)
  show "matchPackage ''a/...'' ''a/b'' dir"
    by (simp add: matchPackage_def filepath_ToSlash_def strings_HasSuffix_def
        strings_TrimSuffix_def strings_HasPrefix_def)
next
  assume "\<not> strings_Contains dir ''/a/''"
  then show "\<not> matchPackage ''a/...'' ''ab'' dir"
    by (simp add: matchPackage_def filepath_ToSlash_def strings_HasSuffix_def
        strings_TrimSuffix_def strings_HasPrefix_def)
next
  assume "\<not> strings_HasSuffix pattern ''/...'' \<and> strings_HasSuffix identity (''/'' @ pattern)"
  then show "matchPackage pattern identity dir"
    by (simp add: matchPackage_def filepath_ToSlash_def Let_def)
next
  assume "strings_HasSuffix identity ''/pkg1''"
  moreover have "\<not> strings_HasSuffix ''pkg1'' ''/...''"
    by (simp add: strings_HasSuffix_def)
  ultimately show "matchPackage ''pkg1'' identity dir"
    by (simp add: matchPackage_def filepath_ToSlash_def Let_def)
next
  assume a: "\<not> strings_HasSuffix pattern ''/...'' \<and> filepath_IsAbs dir'
        \<and> pattern = last (strings_Split dir' CHR ''/'')"
  then have suf: "strings_HasSuffix dir' (''/'' @ pattern)"
    using abs_last [of dir'] by simp
  from a have "\<not> strings_HasSuffix pattern ''/...''" by blast
  with suf show "matchPackage pattern identity' dir'"
    by (simp add: matchPackage_def filepath_ToSlash_def Let_def)
qed

theorem matchPackage_precedence_witness:
  "matchPackage ''a/...'' ''a/b'' ''/w/a/b''
   \<and> \<not> strings_Contains ''/w/ab'' ''/a/'' \<and> \<not> matchPackage ''a/...'' ''ab'' ''/w/ab''
   \<and> \<not> strings_HasSuffix ''pkg1'' ''/...''
   \<and> strings_HasSuffix ''github.com/test/repo/pkg1'' ''/pkg1''
   \<and> matchPackage ''pkg1'' ''github.com/test/repo/pkg1'' ''/w/ab''
   \<and> \<not> strings_HasSuffix ''tools'' ''/...'' \<and> filepath_IsAbs ''/w/tools''
   \<and> ''tools'' = last (strings_Split ''/w/tools'' CHR ''/'')
   \<and> matchPackage ''tools'' ''example.com/cmd'' ''/w/tools''"
proof -
  have h1: "\<not> strings_Contains ''/w/ab'' ''/a/''"
    by (simp add: strings_HasPrefix_def)
  have h2: "\<not> strings_HasSuffix ''pkg1'' ''/...''"
    and h3: "strings_HasSuffix ''github.com/test/repo/pkg1'' ''/pkg1''"
    and h4: "\<not> strings_HasSuffix ''tools'' ''/...''"
    by (simp_all add: strings_HasSuffix_def)
  have h5: "filepath_IsAbs ''/w/tools''"
    by (simp add: filepath_IsAbs_def strings_HasPrefix_def)
  have h6: "''tools'' = last (strings_Split ''/w/tools'' CHR ''/'')"
    by simp
  note t1 = matchPackage_precedence
    [of "''/w/a/b''" "''pkg1''" "''github.com/test/repo/pkg1''" "''/w/tools''" "''example.com/cmd''"]
  note t2 = matchPackage_precedence
    [of "''/w/ab''" "''tools''" "''github.com/test/repo/pkg1''" "''/w/tools''" "''example.com/cmd''"]
  from t1 have "matchPackage ''a/...'' ''a/b'' ''/w/a/b''" by blast
  moreover from t2 h1 have "\<not> matchPackage ''a/...'' ''ab'' ''/w/ab''" by blast
  moreover from t2 h3 have "matchPackage ''pkg1'' ''github.com/test/repo/pkg1'' ''/w/ab''"
    by blast
  moreover from t2 h4 h5 h6 have "matchPackage ''tools'' ''example.com/cmd'' ''/w/tools''"
    by blast
  ultimately show ?thesis using h1 h2 h3 h4 h5 h6 by blast
qed

text \<open>C4 as stated fails: a package with identity \<open>ab\<close> that lives in a directory below
  one named \<open>a\<close> is matched by \<open>a/...\<close> through the directory test.\<close>

theorem matchPackage_ab_counterexample:
  "matchPackage ''a/...'' ''ab'' ''/w/a/ab''"
  by (simp add: matchPackage_def filepath_ToSlash_def strings_HasSuffix_def
      strings_TrimSuffix_def strings_HasPrefix_def)

text \<open>
  C10. For a prefix \<open>p\<close> other than \<open>.\<close>, the pattern \<open>p/...\<close> matches a package whose
  identity is \<open>p\<close> itself exactly when the package's directory contains \<open>/p/\<close>: without
  the directory fallback the package named by the prefix is not matched.
\<close>

theorem matchPackage_wildcard_own_prefix:
  "p \<noteq> ''.'' \<Longrightarrow>
   matchPackage (p @ ''/...'') p dir = strings_Contains dir (''/'' @ p @ ''/'')"
  unfolding matchPackage_def Let_def filepath_ToSlash_def
  by (simp add: HasSuffix_append TrimSuffix_append)
     (simp add: strings_HasSuffix_def strings_HasPrefix_def)

theorem matchPackage_wildcard_own_prefix_witness:
  "''pkg'' \<noteq> ''.'' \<and> \<not> matchPackage (''pkg'' @ ''/...'') ''pkg'' ''/go/src/pkg''
   \<and> matchPackage (''pkg'' @ ''/...'') ''pkg'' ''/go/src/pkg/sub''"
proof -
  have h: "''pkg'' \<noteq> ''.''" by simp
  have "\<not> strings_Contains ''/go/src/pkg'' (''/'' @ ''pkg'' @ ''/'')"
    and "strings_Contains ''/go/src/pkg/sub'' (''/'' @ ''pkg'' @ ''/'')"
    by (simp_all add: strings_HasPrefix_def)
  then show ?thesis
    using matchPackage_wildcard_own_prefix [OF h, of "''/go/src/pkg''"]
      matchPackage_wildcard_own_prefix [OF h, of "''/go/src/pkg/sub''"] h
    by blast
qed

section \<open>Dependency closure\<close>

lemma AddDependencies_deps_keep:
  "AddDependencies_deps pkgs deps (keep, q) = (keep', q') \<Longrightarrow>
   keep' = keep \<union> {d \<in> set deps. map_of pkgs d \<noteq> None}"
proof (induction deps arbitrary: keep q)
  case Nil
  then show ?case by simp
next
  case (Cons dep deps)
  show ?case
  proof (cases "dep \<notin> keep \<and> map_of pkgs dep \<noteq> None")
    case True
    with Cons.prems
    have "AddDependencies_deps pkgs deps (insert dep keep, q @ [dep]) = (keep', q')"
      by simp
    from Cons.IH [OF this] True show ?thesis by auto
  next
    case False
    with Cons.prems have "AddDependencies_deps pkgs deps (keep, q) = (keep', q')"
      by (cases "dep \<in> keep") auto
    from Cons.IH [OF this] False show ?thesis by auto
  qed
qed

lemma AddDependencies_deps_set:
  "AddDependencies_deps pkgs deps (keep, q) = (keep', q') \<Longrightarrow> keep \<subseteq> set q \<Longrightarrow> keep' \<subseteq> set q'"
proof (induction deps arbitrary: keep q)
  case Nil
  then show ?case by simp
next
  case (Cons dep deps)
  show ?case
  proof (cases "dep \<notin> keep \<and> map_of pkgs dep \<noteq> None")
    case True
    with Cons.prems
    have "AddDependencies_deps pkgs deps (insert dep keep, q @ [dep]) = (keep', q')"
      by simp
    from Cons.IH [OF this] Cons.prems(2) show ?thesis by auto
  next
    case False
    with Cons.prems have "AddDependencies_deps pkgs deps (keep, q) = (keep', q')"
      by (cases "dep \<in> keep") auto
    from Cons.IH [OF this] Cons.prems(2) show ?thesis by auto
  qed
qed

lemma AddDependencies_deps_fixed:
  "\<forall>d \<in> set deps. map_of pkgs d \<noteq> None \<longrightarrow> d \<in> keep \<Longrightarrow>
   AddDependencies_deps pkgs deps (keep, q) = (keep, q)"
  by (induction deps) auto

lemma closed_under_deps_mono:
  "closed_under_deps pkgs keep p \<Longrightarrow> keep \<subseteq> keep' \<Longrightarrow> closed_under_deps pkgs keep' p"
  by (auto simp: closed_under_deps_def split: option.splits)

text \<open>One turn of the outer loop.\<close>

lemma AddDependencies_turn:
  assumes "(case map_of pkgs (q ! i) of
             Some p \<Rightarrow> AddDependencies_deps pkgs (Deps p) (keep, q)
           | None \<Rightarrow> (keep, q)) = (keep', q')"
  shows "keep \<subseteq> keep'" and "keep' - keep \<subseteq> fst ` set pkgs" and "\<exists>new. q' = q @ new"
    and "closed_under_deps pkgs keep' (q ! i)" and "keep \<subseteq> set q \<Longrightarrow> keep' \<subseteq> set q'"
proof -
  have "keep \<subseteq> keep' \<and> keep' - keep \<subseteq> fst ` set pkgs \<and> (\<exists>new. q' = q @ new)
        \<and> closed_under_deps pkgs keep' (q ! i) \<and> (keep \<subseteq> set q \<longrightarrow> keep' \<subseteq> set q')"
  proof (cases "map_of pkgs (q ! i)")
    case None
    with assms show ?thesis by (simp add: closed_under_deps_def)
  next
    case (Some p)
    with assms have run: "AddDependencies_deps pkgs (Deps p) (keep, q) = (keep', q')"
      by simp
    have k: "keep' = keep \<union> {d \<in> set (Deps p). map_of pkgs d \<noteq> None}"
      by (rule AddDependencies_deps_keep [OF run])
    have "{d \<in> set (Deps p). map_of pkgs d \<noteq> None} \<subseteq> fst ` set pkgs"
      by (auto simp: map_of_eq_None_iff)
    with k have in_tree: "keep' - keep \<subseteq> fst ` set pkgs" by blast
    have closed: "closed_under_deps pkgs keep' (q ! i)"
      unfolding closed_under_deps_def using Some k by simp
    from k in_tree closed AddDependencies_deps_queue [OF run] AddDependencies_deps_set [OF run]
    show ?thesis by blast
  qed
  then show "keep \<subseteq> keep'" and "keep' - keep \<subseteq> fst ` set pkgs" and "\<exists>new. q' = q @ new"
    and "closed_under_deps pkgs keep' (q ! i)" and "keep \<subseteq> set q \<Longrightarrow> keep' \<subseteq> set q'"
    by blast+
qed

lemma AddDependencies_loop_grows:
  "keep \<subseteq> AddDependencies_loop pkgs i (keep, q)"
proof (induction pkgs i "(keep, q)" arbitrary: keep q rule: AddDependencies_loop.induct)
  case (1 pkgs i keep q)
  show ?case
  proof (cases "i < length q")
    case True
    obtain keep' q' where st: "(case map_of pkgs (q ! i) of
             Some p \<Rightarrow> AddDependencies_deps pkgs (Deps p) (keep, q)
           | None \<Rightarrow> (keep, q)) = (keep', q')" by fastforce
    from "1.hyps" [OF True st] AddDependencies_turn(1) [OF st] True st
    show ?thesis by auto
  next
    case False
    then show ?thesis by simp
  qed
qed

lemma AddDependencies_loop_in_tree:
  "AddDependencies_loop pkgs i (keep, q) - keep \<subseteq> fst ` set pkgs"
proof (induction pkgs i "(keep, q)" arbitrary: keep q rule: AddDependencies_loop.induct)
  case (1 pkgs i keep q)
  show ?case
  proof (cases "i < length q")
    case True
    obtain keep' q' where st: "(case map_of pkgs (q ! i) of
             Some p \<Rightarrow> AddDependencies_deps pkgs (Deps p) (keep, q)
           | None \<Rightarrow> (keep, q)) = (keep', q')" by fastforce
    from "1.hyps" [OF True st] AddDependencies_turn(2) [OF st] True st
    show ?thesis by auto
  next
    case False
    then show ?thesis by simp
  qed
qed

lemma AddDependencies_loop_closed:
  "keep \<subseteq> set q \<Longrightarrow> i \<le> length q \<Longrightarrow> \<forall>j < i. closed_under_deps pkgs keep (q ! j) \<Longrightarrow>
   p \<in> AddDependencies_loop pkgs i (keep, q) \<Longrightarrow>
   closed_under_deps pkgs (AddDependencies_loop pkgs i (keep, q)) p"
proof (induction pkgs i "(keep, q)" arbitrary: keep q rule: AddDependencies_loop.induct)
  case (1 pkgs i keep q)
  show ?case
  proof (cases "i < length q")
    case True
    obtain keep' q' where st: "(case map_of pkgs (q ! i) of
             Some p \<Rightarrow> AddDependencies_deps pkgs (Deps p) (keep, q)
           | None \<Rightarrow> (keep, q)) = (keep', q')" by fastforce
    note turn = AddDependencies_turn [OF st]
    from turn(3) obtain new where q': "q' = q @ new" by blast
    have a: "keep' \<subseteq> set q'" using turn(5) "1.prems"(1) by simp
    have b: "Suc i \<le> length q'" using True q' by simp
    have c: "\<forall>j < Suc i. closed_under_deps pkgs keep' (q' ! j)"
    proof (intro allI impI)
      fix j assume "j < Suc i"
      then have "j < i \<or> j = i" by auto
      then show "closed_under_deps pkgs keep' (q' ! j)"
      proof
        assume "j < i"
        with "1.prems"(3) have "closed_under_deps pkgs keep (q ! j)" by simp
        moreover have "q' ! j = q ! j" using \<open>j < i\<close> True q' by (simp add: nth_append)
        ultimately show ?thesis using closed_under_deps_mono turn(1) by metis
      next
        assume "j = i"
        then have "q' ! j = q ! i" using True q' by (simp add: nth_append)
        with turn(4) show ?thesis by simp
      qed
    qed
    have eq: "AddDependencies_loop pkgs i (keep, q) = AddDependencies_loop pkgs (Suc i) (keep', q')"
      using True st by simp
    from "1.hyps" [OF True st a b c] "1.prems"(4) eq
    show ?thesis by simp
  next
    case False
    with "1.prems" have i: "i = length q" by simp
    have res: "AddDependencies_loop pkgs i (keep, q) = keep" using False by simp
    with "1.prems"(4) have "p \<in> set q" using "1.prems"(1) by auto
    then obtain j where "j < length q" "q ! j = p" by (auto simp: in_set_conv_nth)
    with "1.prems"(3) i res show ?thesis by auto
  qed
qed

lemma AddDependencies_loop_fixed:
  "\<forall>p \<in> keep. closed_under_deps pkgs keep p \<Longrightarrow> set q \<subseteq> keep \<Longrightarrow>
   AddDependencies_loop pkgs i (keep, q) = keep"
proof (induction pkgs i "(keep, q)" arbitrary: keep q rule: AddDependencies_loop.induct)
  case (1 pkgs i keep q)
  show ?case
  proof (cases "i < length q")
    case True
    then have "q ! i \<in> keep" using "1.prems"(2) by auto
    with "1.prems"(1) have "closed_under_deps pkgs keep (q ! i)" by simp
    then have st: "(case map_of pkgs (q ! i) of
             None \<Rightarrow> (keep, q)
           | Some p \<Rightarrow> AddDependencies_deps pkgs (Deps p) (keep, q)) = (keep, q)"
      by (auto simp: closed_under_deps_def AddDependencies_deps_fixed split: option.splits)
    from "1.hyps" [OF True st "1.prems"] True st show ?thesis by simp
  next
    case False
    then show ?thesis by simp
  qed
qed


text \<open>
  C5. The closure is idempotent: whatever the order in which the keys of the keep set are
  visited, in the first run and in the second, a second run of \<open>AddDependencies\<close> on the
  keep set that the first run left returns that keep set.
\<close>

theorem AddDependencies_idempotent:
  assumes "set keys = keepPackages"
    and "set keys' = AddDependencies f keys keepPackages"
  shows "AddDependencies f keys' (AddDependencies f keys keepPackages)
         = AddDependencies f keys keepPackages"
proof -
  let ?r = "AddDependencies f keys keepPackages"
  have "\<forall>p \<in> ?r. closed_under_deps (packages f) ?r p"
    unfolding AddDependencies_def
    using AddDependencies_loop_closed [of keepPackages keys 0 "packages f"] assms(1)
    by simp
  then show ?thesis
    using AddDependencies_loop_fixed [of ?r "packages f" keys' 0] assms(2)
    unfolding AddDependencies_def by simp
qed

lemma scenario_closure:
  "AddDependencies scenario_finder [''repo/pkg2''] {''repo/pkg2''}
   = {''repo/pkg1'', ''repo/pkg2''}"
  by (auto simp add: AddDependencies_def scenario_finder_def)

theorem AddDependencies_idempotent_witness:
  "set [''repo/pkg2''] = {''repo/pkg2''}
   \<and> set [''repo/pkg1'', ''repo/pkg2'']
       = AddDependencies scenario_finder [''repo/pkg2''] {''repo/pkg2''}
   \<and> AddDependencies scenario_finder [''repo/pkg1'', ''repo/pkg2'']
         (AddDependencies scenario_finder [''repo/pkg2''] {''repo/pkg2''})
       = AddDependencies scenario_finder [''repo/pkg2''] {''repo/pkg2''}"
proof -
  have h1: "set [''repo/pkg2''] = {''repo/pkg2''}" by simp
  have h2: "set [''repo/pkg1'', ''repo/pkg2'']
       = AddDependencies scenario_finder [''repo/pkg2''] {''repo/pkg2''}"
    by (simp add: scenario_closure)
  from AddDependencies_idempotent [OF h1 h2] h1 h2 show ?thesis by blast
qed

text \<open>
  C6. When \<open>toProcess\<close> starts as the keys of the keep set, the keep set after the
  closure contains the keep set before it; for every package \<open>p\<close> in it that has a
  record, every declared dependency of \<open>p\<close> that is a key of the package map is in it;
  and an identity that is not a key of the package map is in it only if it was in the
  keep set before.
\<close>

theorem AddDependencies_closure:
  "set keys = keepPackages \<Longrightarrow>
   keepPackages \<subseteq> AddDependencies f keys keepPackages
   \<and> (\<forall>p \<in> AddDependencies f keys keepPackages. \<forall>pkg.
         map_of (packages f) p = Some pkg \<longrightarrow>
         (\<forall>d \<in> set (Deps pkg). map_of (packages f) d \<noteq> None
             \<longrightarrow> d \<in> AddDependencies f keys keepPackages))
   \<and> (\<forall>d. map_of (packages f) d = None \<longrightarrow> d \<notin> keepPackages
         \<longrightarrow> d \<notin> AddDependencies f keys keepPackages)"
proof (intro conjI)
  assume keys: "set keys = keepPackages"
  show "keepPackages \<subseteq> AddDependencies f keys keepPackages"
    unfolding AddDependencies_def by (rule AddDependencies_loop_grows)
  have "\<forall>p \<in> AddDependencies f keys keepPackages.
          closed_under_deps (packages f) (AddDependencies f keys keepPackages) p"
    unfolding AddDependencies_def
    using AddDependencies_loop_closed [of keepPackages keys 0 "packages f"] keys
    by simp
  then have closed: "\<And>p. p \<in> AddDependencies f keys keepPackages \<Longrightarrow>
          closed_under_deps (packages f) (AddDependencies f keys keepPackages) p"
    by blast
  show "\<forall>p \<in> AddDependencies f keys keepPackages. \<forall>pkg.
         map_of (packages f) p = Some pkg \<longrightarrow>
         (\<forall>d \<in> set (Deps pkg). map_of (packages f) d \<noteq> None
             \<longrightarrow> d \<in> AddDependencies f keys keepPackages)"
  proof (intro ballI allI impI)
    fix p pkg d
    assume "p \<in> AddDependencies f keys keepPackages"
      and "map_of (packages f) p = Some pkg" and "d \<in> set (Deps pkg)"
      and "map_of (packages f) d \<noteq> None"
    with closed [of p] show "d \<in> AddDependencies f keys keepPackages"
      by (simp add: closed_under_deps_def)
  qed
  show "\<forall>d. map_of (packages f) d = None \<longrightarrow> d \<notin> keepPackages
         \<longrightarrow> d \<notin> AddDependencies f keys keepPackages"
    using AddDependencies_loop_in_tree [of "packages f" 0 keepPackages keys]
    unfolding AddDependencies_def by (auto simp: map_of_eq_None_iff)
qed

theorem AddDependencies_closure_witness:
  "set [''repo/pkg2''] = {''repo/pkg2''}
   \<and> {''repo/pkg2''} \<subseteq> AddDependencies scenario_finder [''repo/pkg2''] {''repo/pkg2''}
   \<and> ''repo/pkg1'' \<in> AddDependencies scenario_finder [''repo/pkg2''] {''repo/pkg2''}
   \<and> ''fmt'' \<notin> AddDependencies scenario_finder [''repo/pkg2''] {''repo/pkg2''}"
proof -
  let ?R = "AddDependencies scenario_finder [''repo/pkg2''] {''repo/pkg2''}"
  have h: "set [''repo/pkg2''] = {''repo/pkg2''}" by simp
  note t = AddDependencies_closure [OF h, of scenario_finder]
  from t have sub: "{''repo/pkg2''} \<subseteq> ?R" by blast
  have rec: "map_of (packages scenario_finder) ''repo/pkg2''
        = Some \<lparr> Dir = ''/repo/pkg2'', ImportPath = ''repo/pkg2'',
             Deps = [''fmt'', ''repo/pkg1''], EmbedFiles = [],
             GoFiles = [''main.go'', ''util.go''], TestGoFiles = [], OtherFiles = [] \<rparr>"
    and in_tree: "map_of (packages scenario_finder) ''repo/pkg1'' \<noteq> None"
    and ext: "map_of (packages scenario_finder) ''fmt'' = None"
    by (simp_all add: scenario_finder_def)
  from t sub rec in_tree have dep: "''repo/pkg1'' \<in> ?R" by fastforce
  from t ext have "''fmt'' \<notin> ?R" by simp
  with h sub dep show ?thesis by blast
qed

section \<open>File projection\<close>

lemma GetFileList_range_set:
  "set (GetFileList_range es keep withTests acc)
   = set acc \<union> (\<Union>e \<in> set es. if fst e \<in> keep then set (GetFileList_package (snd e) withTests) else {})"
  by (induction es arbitrary: acc) auto

text \<open>With tests requested the list holds the primary source files, the test files and
  the other files of every kept package.\<close>

lemma GetFileList_with_tests:
  assumes "(k, pkg) \<in> set (packages f)" and "k \<in> keepPackages"
    and "file \<in> set (GoFiles pkg) \<union> set (TestGoFiles pkg) \<union> set (OtherFiles pkg)"
  shows "filepath_Join [Dir pkg, file] \<in> set (GetFileList f keepPackages True)"
proof -
  have "filepath_Join [Dir pkg, file] \<in> set (GetFileList_package pkg True)"
    using assms(3) by (auto simp: GetFileList_package_def)
  then show ?thesis
    unfolding GetFileList_def GetFileList_range_set using assms(1,2) by force
qed

text \<open>
  C1 fails on the external-test files. \<open>Package\<close> has no field for them, so decoding
  drops the \<open>XTestGoFiles\<close> that \<open>go list\<close> reports, and with tests requested the file
  list of the kept package \<open>pkg1\<close> holds its \<open>main.go\<close> and \<open>main_test.go\<close> but not
  its external test \<open>export_test.go\<close>.
\<close>

theorem GetFileList_drops_external_tests:
  "FindAll \<lparr> Finder.sourceDir = ''/test'', packages = [] \<rparr> (Some xtest_output)
     = (None, \<lparr> Finder.sourceDir = ''/test'',
          packages = [(''pkg1'', \<lparr> Dir = ''/test/pkg1'', ImportPath = ''pkg1'', Deps = [],
             EmbedFiles = [], GoFiles = [''main.go''], TestGoFiles = [''main_test.go''],
             OtherFiles = [] \<rparr>)] \<rparr>)
   \<and> GetFileList (snd (FindAll \<lparr> Finder.sourceDir = ''/test'', packages = [] \<rparr> (Some xtest_output)))
        {''pkg1''} True
     = [''/test/pkg1/main.go'', ''/test/pkg1/main_test.go'']
   \<and> ''/test/pkg1/export_test.go''
       \<notin> set (GetFileList
                (snd (FindAll \<lparr> Finder.sourceDir = ''/test'', packages = [] \<rparr> (Some xtest_output)))
                {''pkg1''} True)"
proof -
  have d: "FindAll \<lparr> Finder.sourceDir = ''/test'', packages = [] \<rparr> (Some xtest_output)
     = (None, \<lparr> Finder.sourceDir = ''/test'',
          packages = [(''pkg1'', \<lparr> Dir = ''/test/pkg1'', ImportPath = ''pkg1'', Deps = [],
             EmbedFiles = [], GoFiles = [''main.go''], TestGoFiles = [''main_test.go''],
             OtherFiles = [] \<rparr>)] \<rparr>)"
    by (simp add: FindAll_def xtest_output_def Decode_def)
  have j1: "filepath_Join [''/test/pkg1'', ''main.go''] = ''/test/pkg1/main.go''"
    and j2: "filepath_Join [''/test/pkg1'', ''main_test.go''] = ''/test/pkg1/main_test.go''"
    by (simp_all add: filepath_Join_def filepath_Clean_def clean_elems_def clean_step_def
        strings_HasPrefix_def)
  have g: "GetFileList (snd (FindAll \<lparr> Finder.sourceDir = ''/test'', packages = [] \<rparr> (Some xtest_output)))
        {''pkg1''} True
     = [''/test/pkg1/main.go'', ''/test/pkg1/main_test.go'']"
    unfolding d by (simp add: GetFileList_def GetFileList_package_def j1 j2)
  from d g show ?thesis by simp
qed

section \<open>Classification and the passes of the deletion engine\<close>

text \<open>
  C3, as the code has it. With version-control protection enabled a path that contains
  \<open>/.git/\<close> is classified KEEP, whether or not it is in the keep set. With manifest
  protection enabled a path whose base name is \<open>go.mod\<close> or \<open>go.sum\<close> and that does
  not contain \<open>/testdata/\<close> is classified KEEP. A manifest-named path that contains
  \<open>/testdata/\<close> and is not in the keep set is classified REMOVE, unless version-control
  protection is enabled and the path contains \<open>/.git/\<close>.
\<close>

theorem classify_protection:
  "(protectGit c \<and> strings_Contains absPath ''/.git/'' \<longrightarrow> classify c absPath = KEEP)
   \<and> (protectGoMod c \<and> (filepath_Base absPath = ''go.mod'' \<or> filepath_Base absPath = ''go.sum'')
        \<and> \<not> strings_Contains absPath ''/testdata/'' \<longrightarrow> classify c absPath = KEEP)
   \<and> ((filepath_Base absPath = ''go.mod'' \<or> filepath_Base absPath = ''go.sum'')
        \<and> strings_Contains absPath ''/testdata/'' \<and> absPath \<notin> filesToKeep c
        \<and> \<not> (protectGit c \<and> strings_Contains absPath ''/.git/'')
        \<longrightarrow> classify c absPath = REMOVE)"
  unfolding classify_def Let_def
  by (intro conjI impI) (simp_all only: if_True if_False simp_thms split: if_splits)

theorem classify_protection_witness:
  "protectGit example_cleaner \<and> strings_Contains ''/src/.git/config'' ''/.git/''
   \<and> classify example_cleaner ''/src/.git/config'' = KEEP
   \<and> protectGoMod example_cleaner \<and> filepath_Base ''/src/go.mod'' = ''go.mod''
   \<and> \<not> strings_Contains ''/src/go.mod'' ''/testdata/''
   \<and> classify example_cleaner ''/src/go.mod'' = KEEP
   \<and> filepath_Base ''/src/pkg2/testdata/go.mod'' = ''go.mod''
   \<and> strings_Contains ''/src/pkg2/testdata/go.mod'' ''/testdata/''
   \<and> ''/src/pkg2/testdata/go.mod'' \<notin> filesToKeep example_cleaner
   \<and> \<not> strings_Contains ''/src/pkg2/testdata/go.mod'' ''/.git/''
   \<and> classify example_cleaner ''/src/pkg2/testdata/go.mod'' = REMOVE"
proof -
  have g1: "protectGit example_cleaner" and g2: "protectGoMod example_cleaner"
    and g3: "''/src/pkg2/testdata/go.mod'' \<notin> filesToKeep example_cleaner"
    by (simp_all add: example_cleaner_def New_def)
  have h1: "strings_Contains ''/src/.git/config'' ''/.git/''"
    and h2: "\<not> strings_Contains ''/src/go.mod'' ''/testdata/''"
    and h3: "strings_Contains ''/src/pkg2/testdata/go.mod'' ''/testdata/''"
    and h4: "\<not> strings_Contains ''/src/pkg2/testdata/go.mod'' ''/.git/''"
    by (simp_all add: strings_HasPrefix_def)
  have b1: "filepath_Base ''/src/go.mod'' = ''go.mod''"
    and b2: "filepath_Base ''/src/pkg2/testdata/go.mod'' = ''go.mod''"
    by (simp_all add: filepath_Base_def)
  from classify_protection [of example_cleaner "''/src/.git/config''"] g1 h1
  have "classify example_cleaner ''/src/.git/config'' = KEEP" by blast
  moreover from classify_protection [of example_cleaner "''/src/go.mod''"] g2 b1 h2
  have "classify example_cleaner ''/src/go.mod'' = KEEP" by blast
  moreover from classify_protection [of example_cleaner "''/src/pkg2/testdata/go.mod''"] b2 h3 g3 h4
  have "classify example_cleaner ''/src/pkg2/testdata/go.mod'' = REMOVE" by blast
  ultimately show ?thesis using g1 g2 g3 h1 h2 h3 h4 b1 b2 by blast
qed

text \<open>C3 as stated fails: a manifest-named file in a fixture directory that lies below a
  \<open>.git\<close> directory is kept by the version-control protection, though it is not in the
  keep set.\<close>

theorem classify_fixture_manifest_counterexample:
  "filepath_Base ''/src/.git/testdata/go.mod'' = ''go.mod''
   \<and> strings_Contains ''/src/.git/testdata/go.mod'' ''/testdata/''
   \<and> ''/src/.git/testdata/go.mod'' \<notin> filesToKeep example_cleaner
   \<and> classify example_cleaner ''/src/.git/testdata/go.mod'' = KEEP"
  by (simp add: example_cleaner_def New_def classify_def filepath_Base_def strings_HasPrefix_def)

lemma classify_cong:
  "filesToKeep c = filesToKeep c' \<Longrightarrow> protectGit c = protectGit c' \<Longrightarrow>
   protectGoMod c = protectGoMod c' \<Longrightarrow> classify c = classify c'"
  by (rule ext) (auto simp add: classify_def)

lemma walkFn_cong:
  "classify c = classify c' \<Longrightarrow> walkFn c = walkFn c'"
  by (intro ext) (simp add: walkFn_def split: sum.splits)

lemma walk_cong:
  assumes "walkFn c = walkFn c'"
  shows "walk c fs path info acc = walk c' fs path info acc"
    and "walk_names c fs path entries acc = walk_names c' fs path entries acc"
  using assms
  by (induction c fs path info acc and c fs path entries acc rule: walk_walk_names.induct)
     (simp_all split: sum.splits)

lemma Walk_cong:
  assumes "sourceDir c = sourceDir c'" and "filesToKeep c = filesToKeep c'"
    and "protectGit c = protectGit c'" and "protectGoMod c = protectGoMod c'"
  shows "Walk c fs = Walk c' fs"
proof -
  have "walkFn c = walkFn c'"
    by (rule walkFn_cong [OF classify_cong [OF assms(2-4)]])
  then have "\<And>p info acc. walk c fs p info acc = walk c' fs p info acc"
    by (rule walk_cong(1))
  then show ?thesis
    unfolding Walk_def assms(1) by (simp split: option.splits)
qed

lemma removeEmptyDirs_entries_cong:
  assumes "\<And>name entry path. (name, entry) \<in> set entries \<Longrightarrow>
             removeEmptyDirs c fs path entry = removeEmptyDirs c' fs path entry"
    and "protectGit c = protectGit c'"
  shows "removeEmptyDirs_entries c fs path entries = removeEmptyDirs_entries c' fs path entries"
  using assms
proof (induction entries)
  case Nil
  show ?case by simp
next
  case (Cons e entries)
  obtain name entry where e: "e = (name, entry)" by (cases e)
  have rest: "removeEmptyDirs_entries c fs path entries = removeEmptyDirs_entries c' fs path entries"
    by (rule Cons.IH) (use Cons.prems in auto)
  have hd: "\<And>p. removeEmptyDirs c fs p entry = removeEmptyDirs c' fs p entry"
    using Cons.prems(1) [of name entry] e by simp
  show ?case unfolding e removeEmptyDirs_entries.simps rest hd Cons.prems(2) ..
qed

lemma removeEmptyDirs_cong:
  assumes "sourceDir c = sourceDir c'" and "dryRun c = dryRun c'" and "protectGit c = protectGit c'"
  shows "removeEmptyDirs c fs path info = removeEmptyDirs c' fs path info"
proof (induction info arbitrary: path)
  case RegularFile
  show ?case by simp
next
  case (Directory entries)
  have "removeEmptyDirs_entries c fs path entries = removeEmptyDirs_entries c' fs path entries"
    by (rule removeEmptyDirs_entries_cong) (use Directory assms(3) in auto)
  then show ?case by (simp add: assms split: prod.splits option.splits)
qed

lemma removeEmptyDirs_entries_dryRun:
  assumes "\<And>name entry path. (name, entry) \<in> set entries \<Longrightarrow>
             snd (removeEmptyDirs c fs path entry) = Some entry"
  shows "snd (removeEmptyDirs_entries c fs path entries) = entries"
  using assms
proof (induction entries)
  case Nil
  show ?case by simp
next
  case (Cons e entries)
  obtain name entry where e: "e = (name, entry)" by (cases e)
  have "snd (removeEmptyDirs_entries c fs path entries) = entries"
    by (rule Cons.IH) (use Cons.prems in auto)
  then obtain err' where rest: "removeEmptyDirs_entries c fs path entries = (err', entries)"
    by (cases "removeEmptyDirs_entries c fs path entries") simp
  have "snd (removeEmptyDirs c fs (filepath_Join [path, name]) entry) = Some entry"
    using Cons.prems [of name entry] e by simp
  then obtain err where hd: "removeEmptyDirs c fs (filepath_Join [path, name]) entry = (err, Some entry)"
    by (cases "removeEmptyDirs c fs (filepath_Join [path, name]) entry") simp
  show ?case
  proof (cases "IsDir entry \<and> \<not> (protectGit c \<and> name = ''.git'')")
    case True
    have "removeEmptyDirs_entries c fs path ((name, entry) # entries)
        = (case err of Some x \<Rightarrow> (Some x, (name, entry) # entries)
           | None \<Rightarrow> (err', (name, entry) # entries))"
      unfolding removeEmptyDirs_entries.simps rest hd if_P [OF True]
      by (cases err) simp_all
    then show ?thesis unfolding e by (cases err) simp_all
  next
    case False
    have "removeEmptyDirs_entries c fs path ((name, entry) # entries)
        = (err', (name, entry) # entries)"
      unfolding removeEmptyDirs_entries.simps rest if_not_P [OF False] by simp
    then show ?thesis unfolding e by simp
  qed
qed

lemma removeEmptyDirs_dryRun:
  assumes "dryRun c"
  shows "snd (removeEmptyDirs c fs path info) = Some info"
proof (induction info arbitrary: path)
  case RegularFile
  show ?case by simp
next
  case (Directory entries)
  have "snd (removeEmptyDirs_entries c fs path entries) = entries"
    by (rule removeEmptyDirs_entries_dryRun) (use Directory in auto)
  then obtain err where "removeEmptyDirs_entries c fs path entries = (err, entries)"
    by (cases "removeEmptyDirs_entries c fs path entries") simp
  then show ?case using assms by (cases err) simp_all
qed

lemma put_entry_same:
  assumes "map_of entries e = Some m"
    and "es = [] \<Longrightarrow> d = m" and "es \<noteq> [] \<Longrightarrow> put es (Some d) m = m"
  shows "put_entry e es (Some d) entries = entries"
  using assms(1)
proof (induction entries)
  case Nil
  then show ?case by simp
next
  case (Cons x entries)
  obtain name m0 where x: "x = (name, m0)" by (cases x)
  show ?case
  proof (cases "name = e")
    case True
    with Cons.prems x have m0: "m0 = m" by simp
    show ?thesis
    proof (cases "es = []")
      case True
      with assms(2) have "d = m" by blast
      with True \<open>name = e\<close> x m0 show ?thesis by simp
    next
      case False
      with assms(3) have "put es (Some d) m = m" by blast
      with False \<open>name = e\<close> x m0 show ?thesis by simp
    qed
  next
    case False
    with Cons x show ?thesis by simp
  qed
qed

lemma put_same: "lookup n es = Some d \<Longrightarrow> put es (Some d) n = n"
proof (induction es arbitrary: n)
  case Nil
  then show ?case by simp
next
  case (Cons e es)
  show ?case
  proof (cases n)
    case RegularFile
    then show ?thesis by simp
  next
    case (Directory entries)
    with Cons.prems obtain m where m: "map_of entries e = Some m" and l: "lookup m es = Some d"
      by (auto split: option.splits)
    have "put_entry e es (Some d) entries = entries"
    proof (rule put_entry_same [OF m])
      assume "es = []" with l show "d = m" by simp
    next
      assume "es \<noteq> []" from Cons.IH [OF l] show "put es (Some d) m = m" .
    qed
    with Directory show ?thesis by simp
  qed
qed

lemma removeEmptyDirs_sourceDir_dryRun:
  assumes "dryRun c"
  shows "snd (removeEmptyDirs_sourceDir c fs) = fs"
proof (cases "lookup (tree fs) (path_elems fs (sourceDir c))")
  case None
  then show ?thesis by (simp add: removeEmptyDirs_sourceDir_def)
next
  case (Some d)
  obtain err where "removeEmptyDirs c fs (sourceDir c) d = (err, Some d)"
    using removeEmptyDirs_dryRun [OF assms, of fs "sourceDir c" d]
    by (cases "removeEmptyDirs c fs (sourceDir c) d") simp
  with Some show ?thesis
    by (simp add: removeEmptyDirs_sourceDir_def put_same)
qed

lemma Clean_dryRun: "dryRun c \<Longrightarrow> snd (Clean c fs) = fs"
proof -
  assume d: "dryRun c"
  show ?thesis
  proof (cases "Walk c fs")
    case (Inl e)
    then show ?thesis by (simp add: Clean_def)
  next
    case (Inr toRemove)
    obtain err where r: "removeEmptyDirs_sourceDir c fs = (err, fs)"
      using removeEmptyDirs_sourceDir_dryRun [OF d, of fs]
      by (cases "removeEmptyDirs_sourceDir c fs") simp
    show ?thesis using Inr d r by (cases err) (simp_all add: Clean_def)
  qed
qed


text \<open>
  C8. When the walk of the first pass returns an error, \<open>Clean\<close> returns that error as a
  walk error and the file system is as it was: nothing is removed.
\<close>

theorem Clean_walk_error:
  "Walk c fs = Inl e \<Longrightarrow> Clean c fs = (Some (WalkError e), fs)"
  by (simp add: Clean_def)

theorem Clean_walk_error_witness:
  "Walk example_cleaner (example_fs\<lparr>readdir_fails := (\<lambda>p. p = ''/src/pkg2'')\<rparr>)
     = Inl (ReadDirFailed ''/src/pkg2'')
   \<and> Clean example_cleaner (example_fs\<lparr>readdir_fails := (\<lambda>p. p = ''/src/pkg2'')\<rparr>)
     = (Some (WalkError (ReadDirFailed ''/src/pkg2'')),
        example_fs\<lparr>readdir_fails := (\<lambda>p. p = ''/src/pkg2'')\<rparr>)"
proof -
  have h: "Walk example_cleaner (example_fs\<lparr>readdir_fails := (\<lambda>p. p = ''/src/pkg2'')\<rparr>)
     = Inl (ReadDirFailed ''/src/pkg2'')"
    by code_simp
  from Clean_walk_error [OF h] h show ?thesis by blast
qed

text \<open>
  C2. In dry-run mode \<open>Clean\<close> leaves the file system as it was, whatever it returns,
  and the first pass records the same paths for removal as it does without dry-run on
  the same file system.
\<close>

theorem Clean_dry_run:
  "snd (Clean (WithDryRun True c) fs) = fs
   \<and> Walk (WithDryRun True c) fs = Walk (WithDryRun False c) fs"
proof
  show "snd (Clean (WithDryRun True c) fs) = fs"
    by (rule Clean_dryRun) (simp add: WithDryRun_def)
  show "Walk (WithDryRun True c) fs = Walk (WithDryRun False c) fs"
    by (rule Walk_cong) (simp_all add: WithDryRun_def)
qed

lemma removeEmptyDirs_sourceDir_cong:
  assumes "sourceDir c = sourceDir c'" and "dryRun c = dryRun c'" and "protectGit c = protectGit c'"
  shows "removeEmptyDirs_sourceDir c fs = removeEmptyDirs_sourceDir c' fs"
proof -
  have eq: "removeEmptyDirs c = removeEmptyDirs c'"
    by (intro ext) (rule removeEmptyDirs_cong [OF assms])
  show ?thesis
    unfolding removeEmptyDirs_sourceDir_def assms(1) eq ..
qed

lemma Clean_cong:
  assumes "sourceDir c = sourceDir c'" and "filesToKeep c = filesToKeep c'"
    and "protectGit c = protectGit c'" and "protectGoMod c = protectGoMod c'"
    and "dryRun c = dryRun c'" and "runGoModTidy c = runGoModTidy c'"
  shows "Clean c fs = Clean c' fs"
proof -
  have w: "Walk c fs = Walk c' fs"
    by (rule Walk_cong [OF assms(1-4)])
  have r: "\<And>fs1. removeEmptyDirs_sourceDir c fs1 = removeEmptyDirs_sourceDir c' fs1"
    by (rule removeEmptyDirs_sourceDir_cong [OF assms(1,5,3)])
  show ?thesis
    unfolding Clean_def w r assms(1) assms(5) assms(6) ..
qed


text \<open>
  C9. The test-keeping option has no effect on the deletion engine: with it on and with
  it off, \<open>Clean\<close> returns the same error and the same file system, the first pass
  records the same paths, and the collapse of empty directories gives the same result.
\<close>

theorem Clean_ignores_keepTests:
  "Clean (WithTestKeeping True c) fs = Clean (WithTestKeeping False c) fs
   \<and> Walk (WithTestKeeping True c) fs = Walk (WithTestKeeping False c) fs
   \<and> removeEmptyDirs_sourceDir (WithTestKeeping True c) fs
       = removeEmptyDirs_sourceDir (WithTestKeeping False c) fs"
proof (intro conjI)
  show "Clean (WithTestKeeping True c) fs = Clean (WithTestKeeping False c) fs"
    by (rule Clean_cong) (simp_all add: WithTestKeeping_def)
  show "Walk (WithTestKeeping True c) fs = Walk (WithTestKeeping False c) fs"
    by (rule Walk_cong) (simp_all add: WithTestKeeping_def)
  show "removeEmptyDirs_sourceDir (WithTestKeeping True c) fs
       = removeEmptyDirs_sourceDir (WithTestKeeping False c) fs"
    by (rule removeEmptyDirs_sourceDir_cong) (simp_all add: WithTestKeeping_def)
qed

section \<open>Cleaned paths\<close>

lemma Split_append: "strings_Split (a @ c # b) c = strings_Split a c @ strings_Split b c"
proof (induction a)
  case Nil
  show ?case by simp
next
  case (Cons x a)
  have "strings_Split a c \<noteq> []" using length_Split [of a c] by auto
  then obtain w ws where "strings_Split a c = w # ws" by (cases "strings_Split a c") auto
  with Cons show ?case by simp
qed

lemma Split_elems: "e \<in> set (strings_Split s c) \<Longrightarrow> c \<notin> set e"
proof (induction s arbitrary: e)
  case Nil
  then show ?case by simp
next
  case (Cons x s)
  show ?case
  proof (cases "x = c")
    case True
    with Cons show ?thesis by auto
  next
    case False
    have "strings_Split s c \<noteq> []" using length_Split [of s c] by auto
    then obtain w ws where sp: "strings_Split s c = w # ws" by (cases "strings_Split s c") auto
    with Cons.prems False have "e = x # w \<or> e \<in> set ws" by simp
    then show ?thesis
    proof
      assume "e = x # w"
      moreover have "c \<notin> set w" using Cons.IH [of w] sp by simp
      ultimately show ?thesis using False by simp
    next
      assume "e \<in> set ws"
      then show ?thesis using Cons.IH [of e] sp by simp
    qed
  qed
qed

lemma Split_Join:
  "X \<noteq> [] \<Longrightarrow> \<forall>e \<in> set X. CHR ''/'' \<notin> set e \<Longrightarrow>
   strings_Split (strings_Join X ''/'') CHR ''/'' = X"
proof (induction X "''/''" rule: strings_Join.induct)
  case 1
  then show ?case by simp
next
  case (2 e)
  then show ?case by (simp add: Split_no_sep)
next
  case (3 e v va)
  have "strings_Split (e @ CHR ''/'' # strings_Join (v # va) ''/'') CHR ''/''
        = strings_Split e CHR ''/'' @ strings_Split (strings_Join (v # va) ''/'') CHR ''/''"
    by (rule Split_append)
  also have "\<dots> = [e] @ (v # va)"
    using 3 by (simp add: Split_no_sep)
  finally show ?case by simp
qed

lemma normal_Nil: "normal r []"
  by (simp add: normal_def)

lemma normal_prefix: "normal r (Y @ Z) \<Longrightarrow> normal r Y"
proof -
  assume n: "normal r (Y @ Z)"
  have "''..'' \<notin> set (dropWhile (\<lambda>e. e = ''..'') Y)"
    if d: "''..'' \<notin> set (dropWhile (\<lambda>e. e = ''..'') (Y @ Z))"
  proof (cases "\<forall>e \<in> set Y. e = ''..''")
    case True
    then show ?thesis by (induction Y) auto
  next
    case False
    then obtain x where "x \<in> set Y" "x \<noteq> ''..''" by blast
    then have "dropWhile (\<lambda>e. e = ''..'') (Y @ Z) = dropWhile (\<lambda>e. e = ''..'') Y @ Z"
      by (simp add: dropWhile_append1)
    with d show ?thesis by simp
  qed
  with n show ?thesis by (auto simp: normal_def split: if_splits)
qed

lemma normal_all_dotdot:
  assumes "normal False X" and "X = [] \<or> last X = ''..''"
  shows "\<forall>e \<in> set X. e = ''..''"
proof (rule ccontr)
  assume "\<not> (\<forall>e \<in> set X. e = ''..'')"
  then have ne: "dropWhile (\<lambda>e. e = ''..'') X \<noteq> []" by (simp add: dropWhile_eq_Nil_conv)
  then have "X \<noteq> []" by auto
  have "X = takeWhile (\<lambda>e. e = ''..'') X @ dropWhile (\<lambda>e. e = ''..'') X" by simp
  then have "last X = last (dropWhile (\<lambda>e. e = ''..'') X)"
    using ne by (metis last_appendR)
  with assms(2) \<open>X \<noteq> []\<close> have "last (dropWhile (\<lambda>e. e = ''..'') X) = ''..''" by simp
  with ne have "''..'' \<in> set (dropWhile (\<lambda>e. e = ''..'') X)" by (metis last_in_set)
  with assms(1) show False by (simp add: normal_def)
qed

lemma normal_snoc:
  assumes "normal r X" and "elem_ok e" and "e \<noteq> ''..''"
  shows "normal r (X @ [e])"
proof (cases "\<forall>x \<in> set X. x = ''..''")
  case True
  then have "dropWhile (\<lambda>e. e = ''..'') (X @ [e]) = [e]"
    using assms(3) by simp
  with assms True show ?thesis by (auto simp: normal_def)
next
  case False
  then obtain x where "x \<in> set X" "x \<noteq> ''..''" by blast
  then have "dropWhile (\<lambda>e. e = ''..'') (X @ [e]) = dropWhile (\<lambda>e. e = ''..'') X @ [e]"
    by (simp add: dropWhile_append1)
  with assms show ?thesis by (auto simp: normal_def split: if_splits)
qed

lemma normal_snoc_dotdot:
  assumes "normal False X" and "X = [] \<or> last X = ''..''"
  shows "normal False (X @ [''..''])"
proof -
  have all: "\<forall>e \<in> set X. e = ''..''" by (rule normal_all_dotdot [OF assms])
  then have "dropWhile (\<lambda>e. e = ''..'') (X @ [''..'']) = []"
    by (simp add: dropWhile_append2)
  moreover have "elem_ok ''..''" by (simp add: elem_ok_def)
  ultimately show ?thesis using assms(1) by (simp add: normal_def)
qed

lemma normal_step:
  assumes "normal r X" and "CHR ''/'' \<notin> set e"
  shows "normal r (clean_step r X e)"
proof -
  consider "e = [] \<or> e = ''.''" | "e = ''..''" "X \<noteq> [] \<and> last X \<noteq> ''..''"
    | "e = ''..''" "\<not> (X \<noteq> [] \<and> last X \<noteq> ''..'')" "r"
    | "e = ''..''" "\<not> (X \<noteq> [] \<and> last X \<noteq> ''..'')" "\<not> r"
    | "e \<noteq> []" "e \<noteq> ''.''" "e \<noteq> ''..''" by blast
  then show ?thesis
  proof cases
    case 1
    with assms show ?thesis by (auto simp: clean_step_def)
  next
    case 2
    then have "X = butlast X @ [last X]" by simp
    then have "normal r (butlast X)" using assms(1) normal_prefix by metis
    with 2 show ?thesis by (simp add: clean_step_def)
  next
    case 3
    with assms show ?thesis by (auto simp: clean_step_def)
  next
    case 4
    then have "normal False (X @ [''..''])" using normal_snoc_dotdot assms(1) by auto
    with 4 show ?thesis by (auto simp: clean_step_def)
  next
    case 5
    then have "elem_ok e" using assms(2) by (simp add: elem_ok_def)
    then have "normal r (X @ [e])" using normal_snoc assms(1) 5 by simp
    with 5 show ?thesis by (simp add: clean_step_def)
  qed
qed

lemma normal_foldl:
  "normal r X \<Longrightarrow> \<forall>e \<in> set xs. CHR ''/'' \<notin> set e \<Longrightarrow> normal r (foldl (clean_step r) X xs)"
  by (induction xs arbitrary: X) (simp_all add: normal_step)

lemma normal_clean_elems: "normal (strings_HasPrefix p ''/'') (clean_elems p)"
  unfolding clean_elems_def
  by (rule normal_foldl [OF normal_Nil]) (simp add: Split_elems)

lemma clean_step_normal:
  assumes "normal r (X @ [e])"
  shows "clean_step r X e = X @ [e]"
proof -
  have ok: "elem_ok e" using assms by (simp add: normal_def)
  show ?thesis
  proof (cases "e = ''..''")
    case True
    with assms have nr: "\<not> r" by (auto simp: normal_def)
    with assms True have "\<forall>x \<in> set (X @ [''..'']). x = ''..''"
      using normal_all_dotdot [of "X @ [''..'']"] by simp
    then have "X = [] \<or> last X = ''..''" by (cases X rule: rev_cases) auto
    with True nr show ?thesis by (auto simp: clean_step_def)
  next
    case False
    with ok show ?thesis by (simp add: clean_step_def elem_ok_def)
  qed
qed

lemma foldl_clean_step_normal: "normal r X \<Longrightarrow> foldl (clean_step r) [] X = X"
proof (induction X rule: rev_induct)
  case Nil
  show ?case by simp
next
  case (snoc e X)
  then have "foldl (clean_step r) [] X = X" using normal_prefix by blast
  then show ?case using clean_step_normal [OF snoc.prems] by simp
qed

lemma Join_not_rooted:
  assumes "X \<noteq> []" and "hd X \<noteq> []" and "CHR ''/'' \<notin> set (hd X)"
  shows "\<not> strings_HasPrefix (strings_Join X ''/'') ''/''"
proof -
  obtain e es where X: "X = e # es" using assms(1) by (cases X) auto
  with assms obtain x xs where e: "e = x # xs" and x: "x \<noteq> CHR ''/''"
    by (cases e) auto
  have "\<exists>rest. strings_Join X ''/'' = x # rest"
    unfolding X e by (cases es) simp_all
  with x show ?thesis by (auto simp: strings_HasPrefix_def)
qed

lemma clean_elems_of_normal:
  assumes "normal r X" and "X \<noteq> []"
  shows "clean_elems (if r then ''/'' @ strings_Join X ''/'' else strings_Join X ''/'') = X"
proof -
  have slash_free: "\<forall>e \<in> set X. CHR ''/'' \<notin> set e"
    using assms(1) by (simp add: normal_def elem_ok_def)
  have split: "strings_Split (strings_Join X ''/'') CHR ''/'' = X"
    by (rule Split_Join [OF assms(2) slash_free])
  show ?thesis
  proof (cases r)
    case True
    have "clean_elems (''/'' @ strings_Join X ''/'')
          = foldl (clean_step True) [] ([] # X)"
      by (simp add: clean_elems_def strings_HasPrefix_def split)
    also have "\<dots> = foldl (clean_step True) [] X"
      by (simp add: clean_step_def)
    also have "\<dots> = X"
      using foldl_clean_step_normal assms(1) True by simp
    finally show ?thesis using True by simp
  next
    case False
    have "hd X \<in> set X" using assms(2) by simp
    then have "hd X \<noteq> []" "CHR ''/'' \<notin> set (hd X)"
      using assms(1) by (auto simp: normal_def elem_ok_def)
    then have nr: "\<not> strings_HasPrefix (strings_Join X ''/'') ''/''"
      using Join_not_rooted assms(2) by simp
    have "clean_elems (strings_Join X ''/'') = foldl (clean_step False) [] X"
      by (simp add: clean_elems_def nr split)
    also have "\<dots> = X"
      using foldl_clean_step_normal assms(1) False by simp
    finally show ?thesis using False by simp
  qed
qed

lemma Clean_elems:
  assumes "p \<noteq> []" and "clean_elems p \<noteq> []"
  shows "clean_elems (filepath_Clean p) = clean_elems p"
proof -
  let ?r = "strings_HasPrefix p ''/''"
  have "filepath_Clean p = (if ?r then ''/'' @ strings_Join (clean_elems p) ''/''
                            else strings_Join (clean_elems p) ''/'')"
    using assms by (simp add: filepath_Clean_def)
  then show ?thesis
    using clean_elems_of_normal [OF normal_clean_elems assms(2)] by simp
qed

lemma clean_elems_snoc:
  assumes "valid_name n" and "p \<noteq> []"
  shows "clean_elems (p @ ''/'' @ n) = clean_elems p @ [n]"
proof -
  have r: "strings_HasPrefix (p @ CHR ''/'' # n) ''/'' = strings_HasPrefix p ''/''"
    using assms(2) by (cases p) (simp_all add: strings_HasPrefix_def)
  have "strings_Split (p @ ''/'' @ n) CHR ''/'' = strings_Split p CHR ''/'' @ [n]"
    using assms(1) Split_append [of p "CHR ''/''" n]
    by (simp add: Split_no_sep valid_name_def)
  then have "clean_elems (p @ ''/'' @ n)
      = clean_step (strings_HasPrefix p ''/'') (clean_elems p) n"
    by (simp add: clean_elems_def r)
  also have "\<dots> = clean_elems p @ [n]"
    using assms(1) by (simp add: clean_step_def valid_name_def)
  finally show ?thesis .
qed

lemma clean_elems_Join:
  assumes "valid_name n"
  shows "clean_elems (filepath_Join [p, n]) = clean_elems p @ [n]"
proof (cases "p = []")
  case True
  have n: "n \<noteq> []" "CHR ''/'' \<notin> set n" using assms by (simp_all add: valid_name_def)
  have nr: "\<not> strings_HasPrefix n ''/''"
    using n by (cases n) (auto simp add: strings_HasPrefix_def)
  have e: "clean_elems n = [n]"
    using assms by (simp add: clean_elems_def nr Split_no_sep clean_step_def valid_name_def)
  have "filepath_Join [p, n] = filepath_Clean n"
    using True n by (simp add: filepath_Join_def)
  also have "\<dots> = n"
    using n nr e by (simp add: filepath_Clean_def)
  finally have "filepath_Join [p, n] = n" .
  moreover have "clean_elems p = []"
    using True by (simp add: clean_elems_def clean_step_def)
  ultimately show ?thesis using e by simp
next
  case False
  have j: "filepath_Join [p, n] = filepath_Clean (p @ ''/'' @ n)"
    using False by (simp add: filepath_Join_def)
  have s: "clean_elems (p @ ''/'' @ n) = clean_elems p @ [n]"
    by (rule clean_elems_snoc [OF assms False])
  have "clean_elems (filepath_Clean (p @ ''/'' @ n)) = clean_elems (p @ ''/'' @ n)"
    by (rule Clean_elems) (use s in simp_all)
  with j s show ?thesis by simp
qed

section \<open>Collapse of empty directories\<close>

lemma no_empty_dirs_entries_append:
  "no_empty_dirs_entries protect (xs @ ys)
   = (no_empty_dirs_entries protect xs \<and> no_empty_dirs_entries protect ys)"
  by (induction xs) auto

lemma valid_entries_iff:
  "valid_entries entries = (\<forall>(name, entry) \<in> set entries. valid_name name \<and> valid_tree entry)"
  by (induction entries) auto

lemma collapse_entries:
  assumes sub: "\<And>name entry path left. (name, entry) \<in> set entries \<Longrightarrow>
            length (clean_elems (sourceDir c)) < length (clean_elems path) \<Longrightarrow>
            removeEmptyDirs c fs path entry = (None, left) \<Longrightarrow>
            settled (protectGit c) left"
    and names: "\<forall>(name, entry) \<in> set entries. valid_name name"
    and depth: "length (clean_elems (sourceDir c)) \<le> length (clean_elems path)"
    and run: "removeEmptyDirs_entries c fs path entries = (None, entries')"
  shows "no_empty_dirs_entries (protectGit c) entries'"
  using sub names run
proof (induction entries arbitrary: entries')
  case Nil
  then show ?case by simp
next
  case (Cons e entries)
  obtain name entry where e: "e = (name, entry)" by (cases e)
  obtain err rest where rest: "removeEmptyDirs_entries c fs path entries = (err, rest)"
    by (cases "removeEmptyDirs_entries c fs path entries")
  have name: "valid_name name" using Cons.prems(2) e by simp
  have IH: "err = None \<Longrightarrow> no_empty_dirs_entries (protectGit c) rest"
  proof -
    assume "err = None"
    with rest have r: "removeEmptyDirs_entries c fs path entries = (None, rest)" by simp
    show ?thesis
    proof (rule Cons.IH [OF _ _ r])
      fix name' entry' path' left'
      assume "(name', entry') \<in> set entries"
        and "length (clean_elems (sourceDir c)) < length (clean_elems path')"
        and "removeEmptyDirs c fs path' entry' = (None, left')"
      then show "settled (protectGit c) left'"
        using Cons.prems(1) [of name' entry' path' left'] by simp
    next
      show "\<forall>(name, entry) \<in> set entries. valid_name name"
        using Cons.prems(2) by simp
    qed
  qed
  show ?case
  proof (cases "IsDir entry \<and> \<not> (protectGit c \<and> name = ''.git'')")
    case True
    obtain err1 left where hd: "removeEmptyDirs c fs (filepath_Join [path, name]) entry = (err1, left)"
      by (cases "removeEmptyDirs c fs (filepath_Join [path, name]) entry")
    have run': "removeEmptyDirs_entries c fs path ((name, entry) # entries) = (None, entries')"
      using Cons.prems(3) e by simp
    have unf: "removeEmptyDirs_entries c fs path ((name, entry) # entries)
        = (case err1 of
             Some x \<Rightarrow> (Some x, (case left of None \<Rightarrow> [] | Some d \<Rightarrow> [(name, d)]) @ entries)
           | None \<Rightarrow> (err, (case left of None \<Rightarrow> [] | Some d \<Rightarrow> [(name, d)]) @ rest))"
      unfolding removeEmptyDirs_entries.simps rest hd if_P [OF True]
      by (cases err1) simp_all
    from run' unf have e1: "err1 = None" by (cases err1) simp_all
    with run' unf have e2: "err = None"
      and res: "entries' = (case left of None \<Rightarrow> [] | Some d \<Rightarrow> [(name, d)]) @ rest"
      by simp_all
    have "length (clean_elems (filepath_Join [path, name])) = Suc (length (clean_elems path))"
      by (simp add: clean_elems_Join [OF name])
    with depth have "length (clean_elems (sourceDir c)) < length (clean_elems (filepath_Join [path, name]))"
      by simp
    then have "settled (protectGit c) left"
      using Cons.prems(1) [of name entry "filepath_Join [path, name]" left] hd e1 e by simp
    then have "no_empty_dirs_entries (protectGit c) (case left of None \<Rightarrow> [] | Some d \<Rightarrow> [(name, d)])"
      by (cases left) (simp_all add: settled_def)
    with IH [OF e2] res show ?thesis
      by (simp add: no_empty_dirs_entries_append)
  next
    case False
    have run': "removeEmptyDirs_entries c fs path ((name, entry) # entries) = (None, entries')"
      using Cons.prems(3) e by simp
    have unf: "removeEmptyDirs_entries c fs path ((name, entry) # entries)
        = (err, (name, entry) # rest)"
      unfolding removeEmptyDirs_entries.simps rest if_not_P [OF False] by simp
    from run' unf have e2: "err = None" and res: "entries' = (name, entry) # rest"
      by simp_all
    have "(protectGit c \<and> name = ''.git'') \<or> no_empty_dirs (protectGit c) entry"
      using False by (cases entry) auto
    with IH [OF e2] res show ?thesis by simp
  qed
qed

lemma collapse_node:
  assumes "\<not> dryRun c"
  shows "valid_tree n \<Longrightarrow>
    length (clean_elems (sourceDir c)) < length (clean_elems path) \<Longrightarrow>
    removeEmptyDirs c fs path n = (None, left) \<Longrightarrow> settled (protectGit c) left"
proof (induction n arbitrary: path left)
  case RegularFile
  then show ?case by simp
next
  case (Directory entries)
  from Directory.prems(2) have ne: "path \<noteq> sourceDir c" by auto
  obtain err entries' where ent: "removeEmptyDirs_entries c fs path entries = (err, entries')"
    by (cases "removeEmptyDirs_entries c fs path entries")
  from Directory.prems(3) have rd: "\<not> readdir_fails fs path"
    by (auto split: if_splits)
  from Directory.prems(3) rd ent have err: "err = None"
    by (cases err) simp_all
  have valid: "\<forall>(name, entry) \<in> set entries. valid_name name \<and> valid_tree entry"
    using Directory.prems(1) by (simp add: valid_entries_iff)
  have tidy: "no_empty_dirs_entries (protectGit c) entries'"
  proof (rule collapse_entries [where entries = entries and path = path and fs = fs])
    fix name entry path' left'
    assume in_set: "(name, entry) \<in> set entries"
      and "length (clean_elems (sourceDir c)) < length (clean_elems path')"
      and "removeEmptyDirs c fs path' entry = (None, left')"
    moreover have "valid_tree entry" using valid in_set by auto
    moreover have "entry \<in> Basic_BNFs.snds (name, entry)" by simp
    ultimately show "settled (protectGit c) left'"
      using Directory.IH [of "(name, entry)" entry path' left'] by blast
  next
    show "\<forall>(name, entry) \<in> set entries. valid_name name" using valid by auto
  next
    show "length (clean_elems (sourceDir c)) \<le> length (clean_elems path)"
      using Directory.prems(2) by simp
  next
    show "removeEmptyDirs_entries c fs path entries = (None, entries')"
      using ent err by simp
  qed
  show ?case
  proof (cases "entries' = []")
    case True
    with Directory.prems(3) rd ent err ne assms have "left = None"
      by (simp split: if_splits)
    then show ?thesis by (simp add: settled_def)
  next
    case False
    with Directory.prems(3) rd ent err have "left = Some (Directory entries')"
      by simp
    with False tidy show ?thesis by (simp add: settled_def)
  qed
qed

lemma collapse_root:
  assumes "\<not> dryRun c" and "valid_tree d"
    and "removeEmptyDirs c fs (sourceDir c) d = (None, left)"
  shows "\<exists>entries'. left = Some (Directory entries')
           \<and> no_empty_dirs_entries (protectGit c) entries'"
proof (cases d)
  case RegularFile
  with assms(3) show ?thesis by simp
next
  case (Directory entries)
  obtain err entries' where ent: "removeEmptyDirs_entries c fs (sourceDir c) entries = (err, entries')"
    by (cases "removeEmptyDirs_entries c fs (sourceDir c) entries")
  from assms(3) Directory have rd: "\<not> readdir_fails fs (sourceDir c)"
    by (auto split: if_splits)
  from assms(3) Directory rd ent have err: "err = None"
    by (cases err) simp_all
  have valid: "\<forall>(name, entry) \<in> set entries. valid_name name \<and> valid_tree entry"
    using assms(2) Directory by (simp add: valid_entries_iff)
  have tidy: "no_empty_dirs_entries (protectGit c) entries'"
  proof (rule collapse_entries [where entries = entries and path = "sourceDir c" and fs = fs])
    fix name entry path' left'
    assume in_set: "(name, entry) \<in> set entries"
      and "length (clean_elems (sourceDir c)) < length (clean_elems path')"
      and "removeEmptyDirs c fs path' entry = (None, left')"
    moreover have "valid_tree entry" using valid in_set by auto
    ultimately show "settled (protectGit c) left'"
      using collapse_node [OF assms(1)] by blast
  next
    show "\<forall>(name, entry) \<in> set entries. valid_name name" using valid by auto
  next
    show "length (clean_elems (sourceDir c)) \<le> length (clean_elems (sourceDir c))" by simp
  next
    show "removeEmptyDirs_entries c fs (sourceDir c) entries = (None, entries')"
      using ent err by simp
  qed
  from assms(3) Directory rd ent err have "left = Some (Directory entries')"
    by simp
  with tidy show ?thesis by blast
qed

lemma lookup_valid: "valid_tree t \<Longrightarrow> lookup t es = Some d \<Longrightarrow> valid_tree d"
proof (induction es arbitrary: t)
  case Nil
  then show ?case by simp
next
  case (Cons e es)
  show ?case
  proof (cases t)
    case RegularFile
    with Cons.prems show ?thesis by simp
  next
    case (Directory entries)
    with Cons.prems(2) obtain m where m: "map_of entries e = Some m" and l: "lookup m es = Some d"
      by (auto split: option.splits)
    from m have "(e, m) \<in> set entries" by (rule map_of_SomeD)
    with Cons.prems(1) Directory have "valid_tree m"
      by (auto simp: valid_entries_iff)
    from Cons.IH [OF this l] show ?thesis .
  qed
qed

lemma put_entry_map_of:
  "map_of entries e = Some m \<Longrightarrow>
   map_of (put_entry e es (Some d) entries) e = Some (if es = [] then d else put es (Some d) m)"
proof (induction entries)
  case Nil
  then show ?case by simp
next
  case (Cons x entries)
  obtain name m0 where x: "x = (name, m0)" by (cases x)
  show ?case
  proof (cases "name = e")
    case True
    with Cons.prems x have "m0 = m" by simp
    with True x show ?thesis by simp
  next
    case False
    with Cons x show ?thesis by simp
  qed
qed

lemma lookup_put: "lookup t es = Some d0 \<Longrightarrow> lookup (put es (Some d) t) es = Some d"
proof (induction es arbitrary: t)
  case Nil
  then show ?case by simp
next
  case (Cons e es)
  show ?case
  proof (cases t)
    case RegularFile
    with Cons.prems show ?thesis by simp
  next
    case (Directory entries)
    with Cons.prems obtain m where m: "map_of entries e = Some m" and l: "lookup m es = Some d0"
      by (auto split: option.splits)
    have "lookup (if es = [] then d else put es (Some d) m) es = Some d"
      using Cons.IH [OF l] by simp
    then show ?thesis
      using Directory put_entry_map_of [OF m, of es d] by simp
  qed
qed

text \<open>
  C7. On a tree whose entries have file names, when the collapse pass of a cleaner that
  is not in dry-run mode returns without error, the source root is still a directory,
  and no directory below it is empty, the \<open>.git\<close> directories and what is below them
  left aside when version-control protection is enabled. One call of
  \<open>removeEmptyDirs\<close> on the source root achieves this.
\<close>

theorem removeEmptyDirs_leaves_no_empty_dir:
  assumes "valid_tree (tree fs)" and "\<not> dryRun c"
    and "removeEmptyDirs_sourceDir c fs = (None, fs')"
  shows "\<exists>entries. lookup (tree fs') (path_elems fs' (sourceDir c)) = Some (Directory entries)
           \<and> no_empty_dirs_entries (protectGit c) entries"
proof (cases "lookup (tree fs) (path_elems fs (sourceDir c))")
  case None
  with assms(3) show ?thesis by (simp add: removeEmptyDirs_sourceDir_def)
next
  case (Some d)
  obtain err left where run: "removeEmptyDirs c fs (sourceDir c) d = (err, left)"
    by (cases "removeEmptyDirs c fs (sourceDir c) d")
  with assms(3) Some have err: "err = None"
    and fs': "fs' = fs\<lparr>tree := put (path_elems fs (sourceDir c)) left (tree fs)\<rparr>"
    by (simp_all add: removeEmptyDirs_sourceDir_def)
  have "valid_tree d" by (rule lookup_valid [OF assms(1) Some])
  with run err obtain entries' where left: "left = Some (Directory entries')"
    and tidy: "no_empty_dirs_entries (protectGit c) entries'"
    using collapse_root [OF assms(2), of d fs left] by auto
  have "path_elems fs' (sourceDir c) = path_elems fs (sourceDir c)"
    by (simp add: fs' path_elems_def)
  moreover have "lookup (tree fs') (path_elems fs (sourceDir c)) = Some (Directory entries')"
    using lookup_put [OF Some] by (simp add: fs' left)
  ultimately show ?thesis using tidy by simp
qed


theorem removeEmptyDirs_leaves_no_empty_dir_witness:
  "valid_tree (tree (example_fs\<lparr>tree := collapse_tree\<rparr>))
   \<and> \<not> dryRun example_cleaner
   \<and> fst (removeEmptyDirs_sourceDir example_cleaner (example_fs\<lparr>tree := collapse_tree\<rparr>)) = None
   \<and> tree (snd (removeEmptyDirs_sourceDir example_cleaner (example_fs\<lparr>tree := collapse_tree\<rparr>)))
       = Directory [(''src'', Directory
           [(''.git'', Directory [(''objects'', Directory [])]),
            (''pkg1'', Directory [(''file1.go'', RegularFile)])])]
   \<and> no_empty_dirs_entries (protectGit example_cleaner)
         [(''.git'', Directory [(''objects'', Directory [])]),
          (''pkg1'', Directory [(''file1.go'', RegularFile)])]
   \<and> valid_tree (tree (example_fs\<lparr>tree := Directory [(''src'', Directory [])]\<rparr>))
   \<and> fst (removeEmptyDirs_sourceDir example_cleaner
          (example_fs\<lparr>tree := Directory [(''src'', Directory [])]\<rparr>)) = None
   \<and> tree (snd (removeEmptyDirs_sourceDir example_cleaner
          (example_fs\<lparr>tree := Directory [(''src'', Directory [])]\<rparr>)))
       = Directory [(''src'', Directory [])]"
proof -
  let ?fs = "example_fs\<lparr>tree := collapse_tree\<rparr>"
  let ?fs' = "snd (removeEmptyDirs_sourceDir example_cleaner ?fs)"
  let ?es = "example_fs\<lparr>tree := Directory [(''src'', Directory [])]\<rparr>"
  let ?es' = "snd (removeEmptyDirs_sourceDir example_cleaner ?es)"
  have h1: "valid_tree (tree ?fs)" and e1: "valid_tree (tree ?es)" by code_simp+
  have h2: "\<not> dryRun example_cleaner" by code_simp
  have ok: "fst (removeEmptyDirs_sourceDir example_cleaner ?fs) = None"
    and eok: "fst (removeEmptyDirs_sourceDir example_cleaner ?es) = None"
    by code_simp+
  then have h3: "removeEmptyDirs_sourceDir example_cleaner ?fs = (None, ?fs')"
    and e3: "removeEmptyDirs_sourceDir example_cleaner ?es = (None, ?es')"
    by (metis prod.collapse)+
  have t: "tree ?fs' = Directory [(''src'', Directory
           [(''.git'', Directory [(''objects'', Directory [])]),
            (''pkg1'', Directory [(''file1.go'', RegularFile)])])]"
    by code_simp
  have l: "lookup (tree ?fs') (path_elems ?fs' (sourceDir example_cleaner))
           = Some (Directory [(''.git'', Directory [(''objects'', Directory [])]),
                (''pkg1'', Directory [(''file1.go'', RegularFile)])])"
    by code_simp
  from removeEmptyDirs_leaves_no_empty_dir [OF h1 h2 h3] l
  have n: "no_empty_dirs_entries (protectGit example_cleaner)
         [(''.git'', Directory [(''objects'', Directory [])]),
          (''pkg1'', Directory [(''file1.go'', RegularFile)])]"
    by simp
  have p: "path_elems ?es' (sourceDir example_cleaner) = [''src'']" by code_simp
  from removeEmptyDirs_leaves_no_empty_dir [OF e1 h2 e3] p
  obtain entries where "lookup (tree ?es') [''src''] = Some (Directory entries)" by auto
  moreover have "tree ?es' = Directory [(''src'', Directory [])]" by code_simp
  ultimately have et: "tree ?es' = Directory [(''src'', Directory [])]" by simp
  from h1 h2 ok t n e1 eok et show ?thesis by blast
qed

end
